theory Spec2Isabelle
  imports Complex_Main "HOL-Library.AList" "HOL-Library.Multiset"
begin

section \<open>The rule engine of the compliance service (src/services/ruleEngine.js)\<close>

text \<open>
  The theory embeds the class \<^verbatim>\<open>RuleEngine\<close>: the registry of frameworks and rules, the
  selection and grouping of rules, the execution of the predicates with its two layers of
  \<^verbatim>\<open>try/catch\<close>, and the three score computations. Modelling decisions:
  \<^item> JavaScript numbers are IEEE-754 doubles. The counters are natural numbers (exact below
    \<open>2^53\<close>); a quotient and a product are rounded to the nearest double by \<open>to_double\<close>
    (53 bits, ties to even). The exponent range is not bounded: for counters a JavaScript
    array can reach, no value computed here is subnormal or overflows. The sign of a zero is
    not modelled.
  \<^item> \<^verbatim>\<open>Map\<close> objects are association lists in insertion order (\<open>AList.update\<close> replaces
    in place or appends, as \<^verbatim>\<open>Map.prototype.set\<close> does).
  \<^item> Object literals used as dictionaries (\<^verbatim>\<open>weights\<close>, \<^verbatim>\<open>groups\<close>) inherit from
    \<^verbatim>\<open>Object.prototype\<close>: a lookup \<^verbatim>\<open>obj[key]\<close> of a key the object does not own
    returns the inherited member when \<open>key\<close> names one, \<^verbatim>\<open>undefined\<close> otherwise.
  \<^item> A predicate is a function of the snapshot that resolves to an evaluation object or rejects
    (throws); a predicate that never settles is not modelled. The calls of predicates are
    recorded in a list, the only effect of the engine besides logging.
  \<^item> \<^verbatim>\<open>session_id\<close>, \<^verbatim>\<open>timestamp\<close>, \<^verbatim>\<open>execution_time_ms\<close>, the logger and the free-form
    fields \<^verbatim>\<open>details\<close> and \<^verbatim>\<open>evidence\<close> are left out.
\<close>

subsection \<open>Numbers\<close>

text \<open>\<open>binary_exponent x\<close> is the \<open>e\<close> with \<open>2^e \<le> x < 2^(e+1)\<close>, for \<open>x > 0\<close>.\<close>

function binary_exponent :: "rat \<Rightarrow> int" where
  "binary_exponent x =
     (if x \<le> 0 then 0
      else if 2 \<le> x then binary_exponent (x / 2) + 1
      else if x < 1 then binary_exponent (x * 2) - 1
      else 0)"
  by pat_completeness auto
termination
proof (relation "measure (\<lambda>x. nat (\<lceil>x\<rceil> + 2 * \<lceil>1 / x\<rceil>))")
  show "wf (measure (\<lambda>x::rat. nat (\<lceil>x\<rceil> + 2 * \<lceil>1 / x\<rceil>)))" by simp
next
  fix x :: rat assume a: "\<not> x \<le> 0" "2 \<le> x"
  have half: "\<lceil>x / 2\<rceil> < \<lceil>x\<rceil>"
    using a by (simp add: ceiling_less_iff) linarith
  have "\<lceil>1 / x\<rceil> = 1"
    by (rule ceiling_unique) (use a in auto)
  moreover have "\<lceil>1 / (x / 2)\<rceil> = 1"
    by (rule ceiling_unique) (use a in auto)
  moreover have "0 < \<lceil>x / 2\<rceil>" "0 < \<lceil>x\<rceil>"
    using a by (simp_all add: less_ceiling_iff)
  ultimately show "(x / 2, x) \<in> measure (\<lambda>x. nat (\<lceil>x\<rceil> + 2 * \<lceil>1 / x\<rceil>))"
    using half by (simp del: zero_less_ceiling)
next
  fix x :: rat assume a: "\<not> x \<le> 0" "\<not> 2 \<le> x" "x < 1"
  have x1: "\<lceil>x\<rceil> = 1"
    by (rule ceiling_unique) (use a in auto)
  show "(x * 2, x) \<in> measure (\<lambda>x. nat (\<lceil>x\<rceil> + 2 * \<lceil>1 / x\<rceil>))"
  proof (cases "x < 1/2")
    case True
    have x2: "\<lceil>x * 2\<rceil> = 1"
      by (rule ceiling_unique) (use a True in auto)
    have "2 \<le> 1 / x"
      using a True by (simp add: le_divide_eq)
    then have "\<lceil>1 / x / 2\<rceil> < \<lceil>1 / x\<rceil>"
      by (simp add: ceiling_less_iff) linarith
    then have inv: "\<lceil>1 / (x * 2)\<rceil> < \<lceil>1 / x\<rceil>"
      by (simp add: mult.commute)
    have "0 < \<lceil>1 / (x * 2)\<rceil>"
      using a by (simp add: less_ceiling_iff)
    then show ?thesis
      using x1 x2 inv by (simp del: zero_less_ceiling)
  next
    case False
    have i2: "\<lceil>1 / (x * 2)\<rceil> = 1"
      by (rule ceiling_unique) (use a False in auto)
    have i1: "\<lceil>1 / x\<rceil> = 2"
      by (rule ceiling_unique) (use a False in \<open>auto simp: less_divide_eq divide_le_eq\<close>)
    have x2: "\<lceil>x * 2\<rceil> \<le> 2"
      using a by (simp add: ceiling_le_iff)
    have "\<lceil>x * 2\<rceil> + 2 * \<lceil>1 / (x * 2)\<rceil> < \<lceil>x\<rceil> + 2 * \<lceil>1 / x\<rceil>"
      using x1 x2 i1 i2 by linarith
    moreover have "0 < \<lceil>x\<rceil> + 2 * \<lceil>1 / x\<rceil>"
      using x1 i1 by linarith
    ultimately show ?thesis
      by (simp only: in_measure zless_nat_conj)
  qed
qed

declare binary_exponent.simps [simp del]

text \<open>Rounding to an integer, ties to the even neighbour.\<close>

definition round_half_even :: "rat \<Rightarrow> int" where
  "round_half_even x =
     (let f = \<lfloor>x\<rfloor>; d = x - of_int f
      in if d < 1/2 then f else if 1/2 < d then f + 1 else if even f then f else f + 1)"

text \<open>The double nearest to a rational: 53 significant bits, ties to even.\<close>

definition to_double :: "rat \<Rightarrow> rat" where
  "to_double x =
     (if x = 0 then 0
      else let u = 2 powi (binary_exponent \<bar>x\<bar> - 52)
           in sgn x * (of_int (round_half_even (\<bar>x\<bar> / u)) * u))"

datatype js_number = Num rat | Infinity | NegInfinity | NaN

text \<open>\<^verbatim>\<open>a / b\<close> for two finite numbers that are exact (here: integers).\<close>

definition js_divide :: "rat \<Rightarrow> rat \<Rightarrow> js_number" where
  "js_divide a b =
     (if b = 0 then (if a = 0 then NaN else if 0 < a then Infinity else NegInfinity)
      else Num (to_double (a / b)))"

text \<open>\<^verbatim>\<open>x * 100\<close>.\<close>

fun times_100 :: "js_number \<Rightarrow> js_number" where
  "times_100 (Num x) = Num (to_double (x * 100))"
| "times_100 Infinity = Infinity"
| "times_100 NegInfinity = NegInfinity"
| "times_100 NaN = NaN"

text \<open>\<^verbatim>\<open>Math.round\<close>: the nearest integer, a tie going up.\<close>

fun Math_round :: "js_number \<Rightarrow> js_number" where
  "Math_round (Num x) = Num (of_int \<lfloor>x + 1/2\<rfloor>)"
| "Math_round Infinity = Infinity"
| "Math_round NegInfinity = NegInfinity"
| "Math_round NaN = NaN"

subsection \<open>Objects as dictionaries\<close>

text \<open>
  The members every object literal inherits from \<^verbatim>\<open>Object.prototype\<close> (Node.js). Each of
  them is a function or an object: truthy, not a number, without a \<^verbatim>\<open>push\<close> method.
\<close>

definition object_prototype_keys :: "string list" where
  "object_prototype_keys =
     [''constructor'', ''__defineGetter__'', ''__defineSetter__'', ''hasOwnProperty'',
      ''__lookupGetter__'', ''__lookupSetter__'', ''isPrototypeOf'', ''propertyIsEnumerable'',
      ''toString'', ''valueOf'', ''__proto__'', ''toLocaleString'']"

text \<open>
  \<^verbatim>\<open>Object.keys\<close> and \<^verbatim>\<open>Object.entries\<close> list the keys that are array indices (canonical
  decimal numerals below \<open>2^32 - 1\<close>) first, in ascending order, then the other keys in the
  order of their creation.
\<close>

definition is_digit :: "char \<Rightarrow> bool" where
  "is_digit c = (c \<in> set ''0123456789'')"

definition index_value :: "string \<Rightarrow> nat" where
  "index_value s = foldl (\<lambda>n c. 10 * n + (of_char c - 48)) 0 s"

definition is_array_index :: "string \<Rightarrow> bool" where
  "is_array_index s =
     (case s of
        [] \<Rightarrow> False
      | c # cs \<Rightarrow>
          list_all is_digit s \<and> (if c = CHR ''0'' then cs = [] else True)
          \<and> index_value s < 2 ^ 32 - 1)"

definition Object_entries :: "(string \<times> 'a) list \<Rightarrow> (string \<times> 'a) list" where
  "Object_entries obj =
     sort_key (\<lambda>entry. index_value (fst entry)) (filter (\<lambda>entry. is_array_index (fst entry)) obj)
     @ filter (\<lambda>entry. \<not> is_array_index (fst entry)) obj"

definition Object_keys :: "(string \<times> 'a) list \<Rightarrow> string list" where
  "Object_keys obj = map fst (Object_entries obj)"

subsection \<open>Data model\<close>

datatype js_error = Error string | TypeError string

datatype status = PASS | FAIL | SKIP | ERROR

text \<open>What a predicate resolves to (\<^verbatim>\<open>details\<close> and \<^verbatim>\<open>evidence\<close> left out).\<close>

record evaluation =
  ev_passed :: bool
  ev_message :: string
  ev_findings :: "string list option"

text \<open>
  What a predicate may throw or reject with: an object with a \<^verbatim>\<open>message\<close>, a value that
  has none (a string, a number, an object without the property), or \<^verbatim>\<open>null\<close>/\<^verbatim>\<open>undefined\<close>.
\<close>

datatype thrown = Error_object string | Without_message | Nullish

datatype settled = Resolves evaluation | Rejects thrown

text \<open>
  The first argument of \<^verbatim>\<open>executeCompliance\<close>: \<^verbatim>\<open>null\<close>, \<^verbatim>\<open>undefined\<close>, a value for
  which \<^verbatim>\<open>JSON.stringify(inputData).length\<close> throws (a BigInt or a cycle inside it, or a
  function or a symbol, whose serialisation is \<^verbatim>\<open>undefined\<close>) together with the message of the
  TypeError thrown there, or a document: any other value, with the sections it happens to
  have. A getter or a \<^verbatim>\<open>toJSON\<close> method of the snapshot that throws is not modelled.
\<close>

datatype 'd snapshot = Null | Undefined | Unserializable string 'd | Document 'd

record framework =
  fw_code :: string
  fw_name :: string
  fw_version :: string
  fw_description :: string

record 'd rule =
  code :: string
  framework :: string
  title :: string
  description :: string
  category :: string
  severity :: "string option"
  remediation :: "string option"
  evaluate :: "'d snapshot \<Rightarrow> settled"

record rule_outcome =
  rule_code :: string
  rule_title :: string
  status :: status
  message :: string
  findings :: "string list option"
  result_severity :: "string option"
  result_category :: string
  result_remediation :: "string option"

record framework_result =
  fr_framework :: string
  framework_code :: string
  fr_version :: string
  total_fr :: nat
  passed :: nat
  failed :: nat
  skipped :: nat
  compliance_percentage :: js_number
  risk_score :: js_number
  rule_results :: "rule_outcome list"

text \<open>The summary of the input is determined by the document; its fields are not modelled.\<close>

datatype 'd input_summary = Summary_of 'd

record 'd evaluation_result =
  input_data_summary :: "'d input_summary"
  frameworks_tested :: "string list"
  total_rules :: nat
  passed_rules :: nat
  failed_rules :: nat
  skipped_rules :: nat
  overall_risk_score :: js_number
  framework_results :: "(string \<times> framework_result) list"
  detailed_results :: "rule_outcome list"

record 'd engine =
  rules :: "(string \<times> 'd rule) list"
  frameworks :: "(string \<times> framework) list"

text \<open>The second argument of \<^verbatim>\<open>executeCompliance\<close>; \<open>None\<close> is \<^verbatim>\<open>null\<close> or an absent field.\<close>

record options =
  opt_frameworks :: "string list option"
  opt_categories :: "string list option"
  opt_severity :: "string list option"

subsection \<open>The registry\<close>

definition new_engine :: "'d engine" where
  "new_engine = \<lparr>rules = [], frameworks = []\<rparr>"

definition registerFramework :: "'d engine \<Rightarrow> framework \<Rightarrow> 'd engine" where
  "registerFramework eng fw = eng\<lparr>frameworks := AList.update (fw_code fw) fw (frameworks eng)\<rparr>"

definition ruleKey :: "'d rule \<Rightarrow> string" where
  "ruleKey r = framework r @ '':'' @ code r"

text \<open>
  \<^verbatim>\<open>registerRule\<close> returns the registry as the call leaves it, and the error thrown, if
  any.
\<close>

definition registerRule :: "'d engine \<Rightarrow> 'd rule \<Rightarrow> 'd engine \<times> js_error option" where
  "registerRule eng r =
     (if map_of (frameworks eng) (framework r) = None
      then (eng, Some (Error (''Framework '' @ framework r @ '' not registered'')))
      else (eng\<lparr>rules := AList.update (ruleKey r) r (rules eng)\<rparr>, None))"

definition getFrameworks :: "'d engine \<Rightarrow> framework list" where
  "getFrameworks eng = map snd (frameworks eng)"

definition getRules :: "'d engine \<Rightarrow> 'd rule list" where
  "getRules eng = map snd (rules eng)"

subsection \<open>Selection and grouping\<close>

definition includes_severity :: "string list \<Rightarrow> string option \<Rightarrow> bool" where
  "includes_severity xs s = (case s of None \<Rightarrow> False | Some v \<Rightarrow> v \<in> set xs)"

definition filterRules ::
  "'d engine \<Rightarrow> string list option \<Rightarrow> string list option \<Rightarrow> string list option \<Rightarrow> 'd rule list" where
  "filterRules eng fws cats sevs =
     (let filteredRules = map snd (rules eng);
          filteredRules = (case fws of
             Some fs \<Rightarrow> if 0 < length fs
                        then filter (\<lambda>r. framework r \<in> set fs) filteredRules else filteredRules
           | None \<Rightarrow> filteredRules);
          filteredRules = (case cats of
             Some cs \<Rightarrow> if 0 < length cs
                        then filter (\<lambda>r. category r \<in> set cs) filteredRules else filteredRules
           | None \<Rightarrow> filteredRules);
          filteredRules = (case sevs of
             Some ss \<Rightarrow> if 0 < length ss
                        then filter (\<lambda>r. includes_severity ss (severity r)) filteredRules
                        else filteredRules
           | None \<Rightarrow> filteredRules)
      in filteredRules)"

text \<open>
  The reducer of \<^verbatim>\<open>groupRulesByFramework\<close>. \<^verbatim>\<open>groups[rule.framework]\<close> is the group the
  object owns, else an inherited member (truthy, so no array is created, and the call of its
  \<^verbatim>\<open>push\<close> throws), else \<^verbatim>\<open>undefined\<close> (an array is created).
\<close>

fun group_from :: "(string \<times> 'd rule list) list \<Rightarrow> 'd rule list \<Rightarrow> js_error + (string \<times> 'd rule list) list" where
  "group_from groups [] = Inr groups"
| "group_from groups (r # rest) =
     (case map_of groups (framework r) of
        Some members \<Rightarrow> group_from (AList.update (framework r) (members @ [r]) groups) rest
      | None \<Rightarrow>
          if framework r \<in> set object_prototype_keys
          then Inl (TypeError ''groups[rule.framework].push is not a function'')
          else group_from (groups @ [(framework r, [r])]) rest)"

definition groupRulesByFramework :: "'d rule list \<Rightarrow> js_error + (string \<times> 'd rule list) list" where
  "groupRulesByFramework rs = group_from [] rs"

subsection \<open>Risk scores\<close>

text \<open>
  \<^verbatim>\<open>weights[severity] || 1\<close>: one of the four weights, an inherited member of the object
  literal, or 1.
\<close>

datatype js_weight = Weight nat | Inherited_member

definition getSeverityWeight :: "string option \<Rightarrow> js_weight" where
  "getSeverityWeight sev =
     (case sev of
        None \<Rightarrow> Weight 1
      | Some s \<Rightarrow>
          if s = ''low'' then Weight 1
          else if s = ''medium'' then Weight 2
          else if s = ''high'' then Weight 3
          else if s = ''critical'' then Weight 4
          else if s \<in> set object_prototype_keys then Inherited_member
          else Weight 1)"

text \<open>
  A running sum \<^verbatim>\<open>acc += weight\<close>: a number as long as only numbers were added; adding an
  inherited member concatenates strings, and the text obtained is not a numeral whatever is
  added later.
\<close>

datatype accumulator = Number nat | Text

fun js_add :: "accumulator \<Rightarrow> js_weight \<Rightarrow> accumulator" where
  "js_add (Number a) (Weight w) = Number (a + w)"
| "js_add (Number a) Inherited_member = Text"
| "js_add Text w = Text"

definition weigh :: "accumulator \<times> accumulator \<Rightarrow> rule_outcome \<Rightarrow> accumulator \<times> accumulator" where
  "weigh acc result =
     (case acc of (weightedFailures, totalWeight) \<Rightarrow>
        if status result \<noteq> SKIP
        then let weight = getSeverityWeight (result_severity result)
             in (if status result = FAIL then js_add weightedFailures weight else weightedFailures,
                 js_add totalWeight weight)
        else (weightedFailures, totalWeight))"

text \<open>\<^verbatim>\<open>totalWeight > 0 ? Math.round((weightedFailures / totalWeight) * 100) : 0\<close>.\<close>

fun ratio_percent :: "accumulator \<Rightarrow> accumulator \<Rightarrow> js_number" where
  "ratio_percent (Number f) (Number t) =
     (if 0 < t then Math_round (times_100 (js_divide (of_nat f) (of_nat t))) else Num 0)"
| "ratio_percent Text (Number t) = (if 0 < t then NaN else Num 0)"
| "ratio_percent f Text = Num 0"

definition calculateFrameworkRiskScore :: "framework_result \<Rightarrow> js_number" where
  "calculateFrameworkRiskScore frameworkResult =
     (let effectiveTotal = int (total_fr frameworkResult) - int (skipped frameworkResult)
      in if effectiveTotal = 0 then Num 0
         else (case foldl weigh (Number 0, Number 0) (rule_results frameworkResult) of
                 (weightedFailures, totalWeight) \<Rightarrow> ratio_percent weightedFailures totalWeight))"

text \<open>
  The sums the loop of \<^verbatim>\<open>calculateFrameworkRiskScore\<close> computes when every weight it
  reads is a number, and the test whether some weight it reads is an inherited member.
\<close>

definition numeric_weight :: "string option \<Rightarrow> nat" where
  "numeric_weight sev = (case getSeverityWeight sev of Weight w \<Rightarrow> w | Inherited_member \<Rightarrow> 0)"

definition weighted_failures :: "rule_outcome list \<Rightarrow> nat" where
  "weighted_failures outs =
     sum_list (map (\<lambda>out. numeric_weight (result_severity out))
                   (filter (\<lambda>out. status out = FAIL) outs))"

definition total_weight :: "rule_outcome list \<Rightarrow> nat" where
  "total_weight outs =
     sum_list (map (\<lambda>out. numeric_weight (result_severity out))
                   (filter (\<lambda>out. status out \<noteq> SKIP) outs))"

definition reads_inherited_member :: "rule_outcome list \<Rightarrow> bool" where
  "reads_inherited_member outs =
     list_ex (\<lambda>out. status out \<noteq> SKIP
                     \<and> getSeverityWeight (result_severity out) = Inherited_member) outs"

definition calculateRiskScore :: "'d evaluation_result \<Rightarrow> js_number" where
  "calculateRiskScore results =
     (if total_rules results = 0 then Num 0
      else let effectiveTotal = int (total_rules results) - int (skipped_rules results)
           in if effectiveTotal = 0 then Num 0
              else Math_round (times_100 (js_divide (of_nat (failed_rules results)) (of_int effectiveTotal))))"

subsection \<open>Execution\<close>

text \<open>
  \<^verbatim>\<open>summarizeInputData\<close>: \<^verbatim>\<open>Object.keys(inputData)\<close> throws for \<^verbatim>\<open>null\<close> and
  \<^verbatim>\<open>undefined\<close>, \<^verbatim>\<open>JSON.stringify(inputData).length\<close> throws for a value that cannot be
  serialised; the four reads \<^verbatim>\<open>!!inputData.system_info\<close> ... give \<^verbatim>\<open>false\<close> for a section
  that is absent.
\<close>

definition summarizeInputData :: "'d snapshot \<Rightarrow> js_error + 'd input_summary" where
  "summarizeInputData inputData =
     (case inputData of
        Null \<Rightarrow> Inl (TypeError ''Cannot convert undefined or null to object'')
      | Undefined \<Rightarrow> Inl (TypeError ''Cannot convert undefined or null to object'')
      | Unserializable m d \<Rightarrow> Inl (TypeError m)
      | Document d \<Rightarrow> Inr (Summary_of d))"

text \<open>\<^verbatim>\<open>rule.remediation || 'No remediation provided'\<close>: an empty text is falsy too.\<close>

definition remediation_or_default :: "string option \<Rightarrow> string" where
  "remediation_or_default r =
     (case r of None \<Rightarrow> ''No remediation provided''
      | Some t \<Rightarrow> if t = [] then ''No remediation provided'' else t)"

definition findings_or_empty :: "string list option \<Rightarrow> string list" where
  "findings_or_empty f = (case f of None \<Rightarrow> [] | Some xs \<Rightarrow> xs)"

text \<open>
  \<^verbatim>\<open>executeRule\<close>. The \<^verbatim>\<open>catch\<close> block reads \<^verbatim>\<open>error.message\<close>: of an object it is the
  message, of a value without the property it is \<^verbatim>\<open>undefined\<close>, and of \<^verbatim>\<open>null\<close> or
  \<^verbatim>\<open>undefined\<close> the read itself throws, out of \<^verbatim>\<open>executeRule\<close>.
\<close>

definition executeRule :: "'d rule \<Rightarrow> 'd snapshot \<Rightarrow> js_error + rule_outcome" where
  "executeRule r inputData =
     (let ruleResult = \<lparr>rule_code = code r, rule_title = title r, status = SKIP, message = [],
                        findings = None, result_severity = severity r,
                        result_category = category r,
                        result_remediation = Some (remediation_or_default (remediation r))\<rparr>
      in case evaluate r inputData of
           Resolves evaluation \<Rightarrow>
             Inr (ruleResult\<lparr>status := (if ev_passed evaluation then PASS else FAIL),
                             message := ev_message evaluation,
                             findings := (if ev_passed evaluation then None
                                          else Some (findings_or_empty (ev_findings evaluation)))\<rparr>)
         | Rejects (Error_object m) \<Rightarrow>
             Inr (ruleResult\<lparr>status := ERROR, message := ''Rule evaluation error: '' @ m\<rparr>)
         | Rejects Without_message \<Rightarrow>
             Inr (ruleResult\<lparr>status := ERROR, message := ''Rule evaluation error: undefined''\<rparr>)
         | Rejects Nullish \<Rightarrow>
             Inl (TypeError ''Cannot read properties of null''))"

definition error_message :: "js_error \<Rightarrow> string" where
  "error_message e = (case e of Error m \<Rightarrow> m | TypeError m \<Rightarrow> m)"

text \<open>
  The body of the loop of \<^verbatim>\<open>executeFrameworkRules\<close>, on the result under construction and
  the list of predicate calls made so far.
\<close>

definition count_status :: "framework_result \<Rightarrow> status \<Rightarrow> framework_result" where
  "count_status result s =
     (case s of
        PASS \<Rightarrow> result\<lparr>passed := passed result + 1\<rparr>
      | FAIL \<Rightarrow> result\<lparr>failed := failed result + 1\<rparr>
      | SKIP \<Rightarrow> result\<lparr>skipped := skipped result + 1\<rparr>
      | ERROR \<Rightarrow> result)"

definition rule_step ::
  "'d snapshot \<Rightarrow> framework_result \<times> string list \<Rightarrow> 'd rule \<Rightarrow> framework_result \<times> string list" where
  "rule_step inputData state r =
     (case state of (result, calls) \<Rightarrow>
        (case executeRule r inputData of
           Inr ruleResult \<Rightarrow>
             count_status (result\<lparr>rule_results := rule_results result @ [ruleResult]\<rparr>)
               (status ruleResult)
         | Inl error \<Rightarrow>
             result\<lparr>rule_results := rule_results result @
                        [\<lparr>rule_code = code r, rule_title = title r, status = ERROR,
                          message = ''Execution error: '' @ error_message error,
                          findings = None, result_severity = severity r,
                          result_category = category r, result_remediation = None\<rparr>],
                    failed := failed result + 1\<rparr>,
         calls @ [ruleKey r]))"

definition compliance_of :: "framework_result \<Rightarrow> js_number" where
  "compliance_of result =
     (if 0 < total_fr result
      then Math_round (times_100 (js_divide (of_nat (passed result))
                                            (of_int (int (total_fr result) - int (skipped result)))))
      else Num 0)"

definition executeFrameworkRules ::
  "'d engine \<Rightarrow> string \<Rightarrow> 'd rule list \<Rightarrow> 'd snapshot \<Rightarrow> string list \<times> (js_error + framework_result)" where
  "executeFrameworkRules eng frameworkCode rs inputData =
     (case map_of (frameworks eng) frameworkCode of
        None \<Rightarrow> ([], Inl (TypeError ''Cannot read properties of undefined''))
      | Some fw \<Rightarrow>
          (case foldl (rule_step inputData)
                  (\<lparr>fr_framework = fw_name fw, framework_code = frameworkCode,
                    fr_version = fw_version fw, total_fr = length rs, passed = 0, failed = 0,
                    skipped = 0, compliance_percentage = Num 0, risk_score = Num 0,
                    rule_results = []\<rparr>, []) rs of
             (result, calls) \<Rightarrow>
               let result = result\<lparr>compliance_percentage := compliance_of result\<rparr>;
                   result = result\<lparr>risk_score := calculateFrameworkRiskScore result\<rparr>
               in (calls, Inr result)))"

text \<open>The loop of \<^verbatim>\<open>executeCompliance\<close> over the entries of the groups.\<close>

fun run_frameworks ::
  "'d engine \<Rightarrow> 'd snapshot \<Rightarrow> (string \<times> 'd rule list) list \<Rightarrow> 'd evaluation_result \<Rightarrow> string list
     \<Rightarrow> string list \<times> (js_error + 'd evaluation_result)" where
  "run_frameworks eng inputData [] results calls = (calls, Inr results)"
| "run_frameworks eng inputData (entry # rest) results calls =
     (case executeFrameworkRules eng (fst entry) (snd entry) inputData of
        (made, Inl error) \<Rightarrow> (calls @ made, Inl error)
      | (made, Inr frameworkResult) \<Rightarrow>
          run_frameworks eng inputData rest
            (results\<lparr>framework_results :=
                        AList.update (fst entry) frameworkResult (framework_results results),
                      passed_rules := passed_rules results + passed frameworkResult,
                      failed_rules := failed_rules results + failed frameworkResult,
                      skipped_rules := skipped_rules results + skipped frameworkResult,
                      detailed_results := detailed_results results @ rule_results frameworkResult\<rparr>)
            (calls @ made))"

definition executeCompliance ::
  "'d engine \<Rightarrow> 'd snapshot \<Rightarrow> options \<Rightarrow> string list \<times> (js_error + 'd evaluation_result)" where
  "executeCompliance eng inputData opts =
     (case summarizeInputData inputData of
        Inl error \<Rightarrow> ([], Inl error)
      | Inr summary \<Rightarrow>
          (let rulesToExecute =
                 filterRules eng (opt_frameworks opts) (opt_categories opts) (opt_severity opts);
               results = \<lparr>input_data_summary = summary, frameworks_tested = [],
                          total_rules = length rulesToExecute, passed_rules = 0, failed_rules = 0,
                          skipped_rules = 0, overall_risk_score = Num 0, framework_results = [],
                          detailed_results = []\<rparr>
           in case groupRulesByFramework rulesToExecute of
                Inl error \<Rightarrow> ([], Inl error)
              | Inr rulesByFramework \<Rightarrow>
                  (case run_frameworks eng inputData (Object_entries rulesByFramework)
                          (results\<lparr>frameworks_tested := Object_keys rulesByFramework\<rparr>) [] of
                     (calls, Inl error) \<Rightarrow> (calls, Inl error)
                   | (calls, Inr results) \<Rightarrow>
                       (calls, Inr (results\<lparr>overall_risk_score := calculateRiskScore results\<rparr>)))))"

subsection \<open>Auxiliary definitions for the statements\<close>

text \<open>\<^verbatim>\<open>Math.round((a / b) * 100)\<close> as a function of the exact ratio \<open>a / b\<close>.\<close>

definition percent_of :: "rat \<Rightarrow> int" where
  "percent_of q = \<lfloor>to_double (to_double q * 100) + 1/2\<rfloor>"

text \<open>
  What the body of the loop of \<^verbatim>\<open>executeFrameworkRules\<close> appends for a rule: the outcome
  \<^verbatim>\<open>executeRule\<close> returns, or the outcome built in the \<^verbatim>\<open>catch\<close> block of the loop
  when \<^verbatim>\<open>executeRule\<close> throws.
\<close>

definition outcome_of :: "'d snapshot \<Rightarrow> 'd rule \<Rightarrow> rule_outcome" where
  "outcome_of inputData r =
     (case executeRule r inputData of
        Inr ruleResult \<Rightarrow> ruleResult
      | Inl error \<Rightarrow>
          \<lparr>rule_code = code r, rule_title = title r, status = ERROR,
           message = ''Execution error: '' @ error_message error,
           findings = None, result_severity = severity r,
           result_category = category r, result_remediation = None\<rparr>)"

definition executeRule_throws :: "'d snapshot \<Rightarrow> 'd rule \<Rightarrow> bool" where
  "executeRule_throws inputData r = (case executeRule r inputData of Inl error \<Rightarrow> True | Inr _ \<Rightarrow> False)"

text \<open>The status the settlement of a predicate leads to.\<close>

definition status_of :: "settled \<Rightarrow> status" where
  "status_of s =
     (case s of
        Resolves evaluation \<Rightarrow> if ev_passed evaluation then PASS else FAIL
      | Rejects t \<Rightarrow> ERROR)"

text \<open>
  Every registered rule belongs to a registered framework. The registry starts with it and
  both registration methods keep it (lemmas \<open>catalog_invariant_new\<close>,
  \<open>catalog_invariant_registerFramework\<close>, \<open>catalog_invariant_registerRule\<close>).
\<close>

definition catalog_invariant :: "'d engine \<Rightarrow> bool" where
  "catalog_invariant eng =
     list_all (\<lambda>entry. map_of (frameworks eng) (framework (snd entry)) \<noteq> None) (rules eng)"

text \<open>The result object as \<^verbatim>\<open>executeCompliance\<close> has it when its loop starts.\<close>

definition initial_results :: "'d input_summary \<Rightarrow> nat \<Rightarrow> string list \<Rightarrow> 'd evaluation_result" where
  "initial_results summary n tested =
     \<lparr>input_data_summary = summary, frameworks_tested = tested, total_rules = n,
      passed_rules = 0, failed_rules = 0, skipped_rules = 0, overall_risk_score = Num 0,
      framework_results = [], detailed_results = []\<rparr>"

subsection \<open>The specification's formulations\<close>

text \<open>
  The risk score of a framework as section 4.3 of the specification states it: the weights
  are critical 4, high 3, medium 2, low 1, and 1 for any other or missing severity; the score
  is the rounded percentage of the weight of the FAIL outcomes in the weight of the outcomes
  that are not SKIP, and 0 when the latter is 0.
\<close>

definition spec_weight :: "string option \<Rightarrow> nat" where
  "spec_weight sev =
     (if sev = Some ''critical'' then 4
      else if sev = Some ''high'' then 3
      else if sev = Some ''medium'' then 2
      else 1)"

definition spec_risk_score :: "rule_outcome list \<Rightarrow> js_number" where
  "spec_risk_score outs =
     (let failing = sum_list (map (\<lambda>out. spec_weight (result_severity out))
                                  (filter (\<lambda>out. status out = FAIL) outs));
          counted = sum_list (map (\<lambda>out. spec_weight (result_severity out))
                                  (filter (\<lambda>out. status out \<noteq> SKIP) outs))
      in if counted = 0 then Num 0
         else Math_round (times_100 (js_divide (of_nat failing) (of_nat counted))))"

text \<open>
  Selection as section 4.2 states it: a filter that is absent or empty is no constraint; any
  other filter is satisfied by the values it lists.
\<close>

definition satisfies :: "string list option \<Rightarrow> string option \<Rightarrow> bool" where
  "satisfies allow v =
     (case allow of
        None \<Rightarrow> True
      | Some xs \<Rightarrow> if xs = [] then True else (case v of None \<Rightarrow> False | Some s \<Rightarrow> s \<in> set xs))"

definition spec_selected :: "'d engine \<Rightarrow> options \<Rightarrow> 'd rule list" where
  "spec_selected eng opts =
     filter (\<lambda>r. satisfies (opt_frameworks opts) (Some (framework r))
                 \<and> satisfies (opt_categories opts) (Some (category r))
                 \<and> satisfies (opt_severity opts) (severity r))
            (getRules eng)"

text \<open>
  A percentage as the specification states it, \<open>round(part / (n - k) \<times> 100)\<close> for a total
  \<open>n\<close> of which \<open>k\<close> are skipped, with the exact quotient and rounding half up, and 0 when
  the denominator is 0.
\<close>

definition spec_percentage :: "nat \<Rightarrow> nat \<Rightarrow> nat \<Rightarrow> js_number" where
  "spec_percentage part n k =
     (if int n - int k = 0 then Num 0
      else Num (of_int \<lfloor>(of_nat part :: rat) / (of_nat n - of_nat k) * 100 + 1/2\<rfloor>))"

text \<open>The exact percentage \<open>100 a / b\<close> lies halfway between two whole numbers.\<close>

definition halfway :: "nat \<Rightarrow> nat \<Rightarrow> bool" where
  "halfway a b = ((200 * a + b) mod (2 * b) = 0)"

text \<open>One less than a number.\<close>

fun one_less :: "js_number \<Rightarrow> js_number" where
  "one_less (Num x) = Num (x - 1)"
| "one_less Infinity = Infinity"
| "one_less NegInfinity = NegInfinity"
| "one_less NaN = NaN"

text \<open>
  An outcome reflects what the predicate of a rule did on the snapshot: it carries the code of
  the rule; for a predicate that resolved, the status PASS or FAIL and the message of the
  evaluation; for one that rejected, the status ERROR and, when the thrown value is an object
  with a message, that message after "Rule evaluation error: ".
\<close>

definition outcome_reflects :: "'d snapshot \<Rightarrow> 'd rule \<Rightarrow> rule_outcome \<Rightarrow> bool" where
  "outcome_reflects inputData r out =
     (rule_code out = code r
      \<and> (case evaluate r inputData of
            Resolves ev \<Rightarrow>
              status out = (if ev_passed ev then PASS else FAIL) \<and> message out = ev_message ev
          | Rejects t \<Rightarrow>
              status out = ERROR
              \<and> (case t of
                    Error_object m \<Rightarrow> message out = ''Rule evaluation error: '' @ m
                  | Without_message \<Rightarrow> message out = ''Rule evaluation error: undefined''
                  | Nullish \<Rightarrow> True)))"

text \<open>
  A number is the specification's percentage of \<open>part\<close> in \<open>n\<close> of which \<open>k\<close> are skipped,
  or one less than it when the exact percentage lies halfway between two whole numbers.
\<close>

definition matches_up_to_ties :: "js_number \<Rightarrow> nat \<Rightarrow> nat \<Rightarrow> nat \<Rightarrow> bool" where
  "matches_up_to_ties x part n k =
     (x = spec_percentage part n k
      \<or> (halfway part (n - k) \<and> x = one_less (spec_percentage part n k)))"

text \<open>A whole number between 0 and 100.\<close>

definition whole_percentage :: "js_number \<Rightarrow> bool" where
  "whole_percentage x = (x \<in> set (map (\<lambda>n. Num (of_nat n)) [0..<101]))"

subsection \<open>Example values\<close>

definition example_outcome :: "status \<Rightarrow> string option \<Rightarrow> rule_outcome" where
  "example_outcome st sev =
     \<lparr>rule_code = ''R'', rule_title = ''R'', status = st, message = [], findings = None,
      result_severity = sev, result_category = [], result_remediation = None\<rparr>"

definition example_result :: "rule_outcome list \<Rightarrow> framework_result" where
  "example_result outs =
     \<lparr>fr_framework = ''F'', framework_code = ''F'', fr_version = ''1'', total_fr = length outs,
      passed = length (filter (\<lambda>out. status out = PASS) outs),
      failed = length (filter (\<lambda>out. status out = FAIL) outs),
      skipped = length (filter (\<lambda>out. status out = SKIP) outs),
      compliance_percentage = Num 0, risk_score = Num 0, rule_results = outs\<rparr>"

definition example_framework :: "string \<Rightarrow> framework" where
  "example_framework c =
     \<lparr>fw_code = c, fw_name = ''Framework '' @ c, fw_version = ''1.0'', fw_description = []\<rparr>"

definition example_rule :: "string \<Rightarrow> string \<Rightarrow> string option \<Rightarrow> settled \<Rightarrow> unit rule" where
  "example_rule f c sev s =
     \<lparr>code = c, framework = f, title = ''Rule '' @ c, description = [], category = ''access'',
      severity = sev, remediation = None, evaluate = (\<lambda>inputData. s)\<rparr>"

definition passes :: settled where
  "passes = Resolves \<lparr>ev_passed = True, ev_message = ''compliant'', ev_findings = None\<rparr>"

definition fails :: settled where
  "fails = Resolves \<lparr>ev_passed = False, ev_message = ''not compliant'',
                      ev_findings = Some [''finding'']\<rparr>"

text \<open>Registration as \<^verbatim>\<open>ComplianceService.initialize\<close> does it, rule after rule.\<close>

definition register_rules :: "'d engine \<Rightarrow> 'd rule list \<Rightarrow> 'd engine" where
  "register_rules eng rs = foldl (\<lambda>e r. fst (registerRule e r)) eng rs"

definition no_options :: options where
  "no_options = \<lparr>opt_frameworks = None, opt_categories = None, opt_severity = None\<rparr>"

text \<open>
  The scenario of section 8 of the specification: framework A with one critical rule that
  fails, framework B with one low rule that passes.
\<close>

definition scenario_engine :: "unit engine" where
  "scenario_engine =
     register_rules
       (registerFramework (registerFramework new_engine (example_framework ''A''))
          (example_framework ''B''))
       [example_rule ''A'' ''A1'' (Some ''critical'') fails,
        example_rule ''B'' ''B1'' (Some ''low'') passes]"

text \<open>A critical rule whose predicate rejects with \<^verbatim>\<open>new Error('boom')\<close>, and a low rule that passes.\<close>

definition boom_engine :: "unit engine" where
  "boom_engine =
     register_rules (registerFramework new_engine (example_framework ''A''))
       [example_rule ''A'' ''R1'' (Some ''critical'') (Rejects (Error_object ''boom'')),
        example_rule ''A'' ''R2'' (Some ''low'') passes]"

text \<open>The same with a predicate that rejects with \<^verbatim>\<open>null\<close>.\<close>

definition null_engine :: "unit engine" where
  "null_engine =
     register_rules (registerFramework new_engine (example_framework ''A''))
       [example_rule ''A'' ''R1'' (Some ''critical'') (Rejects Nullish),
        example_rule ''A'' ''R2'' (Some ''low'') passes]"

text \<open>
  A framework A with \<open>p\<close> rules that pass followed by \<open>f\<close> rules that fail, all of severity
  medium; the codes are r, rr, rrr, ...
\<close>

definition numbered_rule :: "settled \<Rightarrow> nat \<Rightarrow> unit rule" where
  "numbered_rule s i = example_rule ''A'' (replicate (Suc i) (CHR ''r'')) (Some ''medium'') s"

definition mixed_engine :: "nat \<Rightarrow> nat \<Rightarrow> unit engine" where
  "mixed_engine p f =
     register_rules (registerFramework new_engine (example_framework ''A''))
       (map (numbered_rule passes) [0..<p] @ map (numbered_rule fails) [p..<p + f])"

text \<open>
  A rule in the manner of rule ISO-A.9.1.1 of the repository, on documents that are the list
  of users of the section \<^verbatim>\<open>security_config\<close>, or nothing when the section is absent: it fails
  with a message when there is no user, passes otherwise, and rejects when the snapshot is
  not a document.
\<close>

definition access_predicate :: "string list option snapshot \<Rightarrow> settled" where
  "access_predicate inputData =
     (case inputData of
        Document (Some (user # users)) \<Rightarrow>
          Resolves \<lparr>ev_passed = True,
                    ev_message = ''Access control policy appears to be properly implemented'',
                    ev_findings = None\<rparr>
      | Document _ \<Rightarrow>
          Resolves \<lparr>ev_passed = False, ev_message = ''No user access information available'',
                    ev_findings = Some [''User access data missing'']\<rparr>
      | _ \<Rightarrow> Rejects (Error_object ''ISO-A.9.1.1 evaluation failed''))"

definition access_engine :: "string list option engine" where
  "access_engine =
     register_rules (registerFramework new_engine (example_framework ''ISO27001''))
       [\<lparr>code = ''ISO-A.9.1.1'', framework = ''ISO27001'', title = ''Access Control Policy'',
         description = [], category = ''Access Control'', severity = Some ''high'',
         remediation = None, evaluate = access_predicate\<rparr>]"


section \<open>Properties\<close>

subsection \<open>Rounding to a double is monotone and fixes 0, 1 and 100\<close>

lemma binary_exponent_bounds:
  "0 < x \<Longrightarrow> 2 powi (binary_exponent x) \<le> x \<and> x < 2 powi (binary_exponent x + 1)"
proof (induction x rule: binary_exponent.induct)
  case (1 x)
  show ?case
  proof (cases "2 \<le> x")
    case True
    with 1 have ih: "2 powi (binary_exponent (x / 2)) \<le> x / 2 \<and> x / 2 < 2 powi (binary_exponent (x / 2) + 1)"
      by simp
    have e: "binary_exponent x = binary_exponent (x / 2) + 1"
      using True 1(3) by (subst binary_exponent.simps) simp
    show ?thesis using ih unfolding e by (simp add: power_int_add)
  next
    case False
    show ?thesis
    proof (cases "x < 1")
      case True
      with 1 False have ih: "2 powi (binary_exponent (x * 2)) \<le> x * 2 \<and> x * 2 < 2 powi (binary_exponent (x * 2) + 1)"
        by simp
      have e: "binary_exponent x = binary_exponent (x * 2) - 1"
        using True False 1(3) by (subst binary_exponent.simps) simp
      show ?thesis using ih unfolding e by (simp add: power_int_add power_int_diff)
    next
      case F2: False
      have e: "binary_exponent x = 0"
        using F2 False 1(3) by (subst binary_exponent.simps) simp
      show ?thesis using F2 False unfolding e by simp
    qed
  qed
qed

lemma binary_exponent_mono:
  assumes "0 < x" "x \<le> y"
  shows "binary_exponent x \<le> binary_exponent y"
proof (rule ccontr)
  assume "\<not> binary_exponent x \<le> binary_exponent y"
  then have "binary_exponent y + 1 \<le> binary_exponent x" by simp
  then have "(2::rat) powi (binary_exponent y + 1) \<le> 2 powi (binary_exponent x)"
    by (intro power_int_increasing) simp_all
  moreover have "y < 2 powi (binary_exponent y + 1)"
    using binary_exponent_bounds[of y] assms by simp
  moreover have "2 powi (binary_exponent x) \<le> x"
    using binary_exponent_bounds[of x] assms by simp
  ultimately show False using assms by linarith
qed

lemma round_half_even_bounds:
  "\<lfloor>x\<rfloor> \<le> round_half_even x \<and> round_half_even x \<le> \<lfloor>x\<rfloor> + 1"
  by (simp add: round_half_even_def Let_def)

lemma round_half_even_of_int [simp]: "round_half_even (of_int n) = n"
  by (simp add: round_half_even_def Let_def)

lemma round_half_even_mono:
  assumes xy: "x \<le> y"
  shows "round_half_even x \<le> round_half_even y"
proof (cases "\<lfloor>x\<rfloor> = \<lfloor>y\<rfloor>")
  case True
  then show ?thesis using xy by (auto simp: round_half_even_def Let_def)
next
  case False
  moreover have "\<lfloor>x\<rfloor> \<le> \<lfloor>y\<rfloor>" using xy by (rule floor_mono)
  ultimately have "\<lfloor>x\<rfloor> + 1 \<le> \<lfloor>y\<rfloor>" by simp
  then show ?thesis
    using round_half_even_bounds[of x] round_half_even_bounds[of y] by linarith
qed

lemma to_double_0 [simp]: "to_double 0 = 0"
  by (simp add: to_double_def)

lemma to_double_minus: "to_double (- x) = - to_double x"
  by (simp add: to_double_def Let_def)

lemma to_double_pos_bounds:
  assumes "0 < x"
  shows "2 powi (binary_exponent x) \<le> to_double x \<and> to_double x \<le> 2 powi (binary_exponent x + 1)"
proof -
  define e where "e = binary_exponent x"
  define u :: rat where "u = 2 powi (e - 52)"
  have u0: "0 < u" by (simp add: u_def)
  have b: "2 powi e \<le> x" "x < 2 powi (e + 1)"
    using binary_exponent_bounds[OF assms] by (simp_all add: e_def)
  have pe: "(2::rat) powi e = 2 ^ 52 * u" by (simp add: u_def power_int_diff)
  have pe1: "(2::rat) powi (e + 1) = 2 ^ 53 * u"
    by (simp add: u_def power_int_diff power_int_add)
  have lo: "(2::rat) ^ 52 \<le> x / u" using b(1) u0 unfolding pe by (simp add: le_divide_eq)
  have hi: "x / u \<le> (2::rat) ^ 53" using b(2) u0 unfolding pe1 by (simp add: divide_le_eq)
  have "round_half_even (of_int (2 ^ 52)) \<le> round_half_even (x / u)"
    by (rule round_half_even_mono) (use lo in simp)
  then have rlo: "(2::int) ^ 52 \<le> round_half_even (x / u)"
    by (simp only: round_half_even_of_int)
  have "round_half_even (x / u) \<le> round_half_even (of_int (2 ^ 53))"
    by (rule round_half_even_mono) (use hi in simp)
  then have rhi: "round_half_even (x / u) \<le> (2::int) ^ 53"
    by (simp only: round_half_even_of_int)
  have td: "to_double x = of_int (round_half_even (x / u)) * u"
    using assms by (simp add: to_double_def Let_def u_def e_def)
  have "(2::rat) ^ 52 * u \<le> of_int (round_half_even (x / u)) * u"
  proof (rule mult_right_mono)
    have "(of_int ((2::int) ^ 52) :: rat) \<le> of_int (round_half_even (x / u))"
      using rlo by (simp only: of_int_le_iff)
    then show "(2::rat) ^ 52 \<le> of_int (round_half_even (x / u))" by simp
    show "0 \<le> u" using u0 by simp
  qed
  moreover have "of_int (round_half_even (x / u)) * u \<le> (2::rat) ^ 53 * u"
  proof (rule mult_right_mono)
    have "(of_int (round_half_even (x / u)) :: rat) \<le> of_int ((2::int) ^ 53)"
      using rhi by (simp only: of_int_le_iff)
    then show "of_int (round_half_even (x / u)) \<le> (2::rat) ^ 53" by simp
    show "0 \<le> u" using u0 by simp
  qed
  ultimately show ?thesis unfolding td e_def[symmetric] pe pe1 by simp
qed

lemma to_double_mono_pos:
  assumes "0 < x" "x \<le> y"
  shows "to_double x \<le> to_double y"
proof (cases "binary_exponent x = binary_exponent y")
  case True
  define u :: rat where "u = 2 powi (binary_exponent y - 52)"
  have u0: "0 < u" by (simp add: u_def)
  have "x / u \<le> y / u" using assms u0 by (simp add: divide_right_mono)
  then have "round_half_even (x / u) \<le> round_half_even (y / u)"
    by (rule round_half_even_mono)
  then have "(of_int (round_half_even (x / u)) :: rat) * u \<le> of_int (round_half_even (y / u)) * u"
    using u0 by (simp add: mult_right_mono)
  then show ?thesis using assms True by (simp add: to_double_def Let_def u_def)
next
  case False
  then have "binary_exponent x + 1 \<le> binary_exponent y"
    using binary_exponent_mono[OF assms] by simp
  then have "(2::rat) powi (binary_exponent x + 1) \<le> 2 powi (binary_exponent y)"
    by (intro power_int_increasing) simp_all
  moreover have "to_double x \<le> 2 powi (binary_exponent x + 1)"
    using to_double_pos_bounds[of x] assms by simp
  moreover have "2 powi (binary_exponent y) \<le> to_double y"
    using to_double_pos_bounds[of y] assms by simp
  ultimately show ?thesis by linarith
qed

lemma to_double_nonneg:
  assumes "0 \<le> x"
  shows "0 \<le> to_double x"
proof (cases "x = 0")
  case False
  then have "0 < x" using assms by simp
  from to_double_pos_bounds[OF this] have "2 powi (binary_exponent x) \<le> to_double x" by simp
  moreover have "(0::rat) < 2 powi (binary_exponent x)" by simp
  ultimately show ?thesis by linarith
qed simp

lemma to_double_mono:
  assumes xy: "x \<le> y"
  shows "to_double x \<le> to_double y"
proof -
  consider "0 < x" | "x = 0" | "x < 0" "0 \<le> y" | "x < 0" "y < 0" by linarith
  then show ?thesis
  proof cases
    case 1
    then show ?thesis using xy by (rule to_double_mono_pos)
  next
    case 2
    then show ?thesis using xy to_double_nonneg by simp
  next
    case 3
    have "0 \<le> to_double (- x)" using 3 by (intro to_double_nonneg) simp
    then have "to_double x \<le> 0" using to_double_minus[of x] by simp
    then show ?thesis using to_double_nonneg[OF 3(2)] by linarith
  next
    case 4
    have "to_double (- y) \<le> to_double (- x)" using 4 xy by (intro to_double_mono_pos) simp_all
    then show ?thesis by (simp add: to_double_minus)
  qed
qed

lemma to_double_1: "to_double 1 = 1"
  by code_simp

lemma to_double_100: "to_double 100 = 100"
  by code_simp

text \<open>The percentage of a ratio between 0 and 1 is a whole number between 0 and 100.\<close>

lemma percent_of_range:
  assumes "0 \<le> q" "q \<le> 1"
  shows "0 \<le> percent_of q \<and> percent_of q \<le> 100"
proof -
  have a: "0 \<le> to_double q" using assms(1) by (rule to_double_nonneg)
  have "to_double q \<le> to_double 1" using assms(2) by (rule to_double_mono)
  then have b: "to_double q \<le> 1" by (simp add: to_double_1)
  have c: "0 \<le> to_double (to_double q * 100)" using a by (intro to_double_nonneg) simp
  have "to_double (to_double q * 100) \<le> to_double 100" using b by (intro to_double_mono) simp
  then have d: "to_double (to_double q * 100) \<le> 100" by (simp add: to_double_100)
  have "0 \<le> \<lfloor>to_double (to_double q * 100) + 1/2\<rfloor>" using c by (simp add: zero_le_floor)
  moreover have "\<lfloor>to_double (to_double q * 100) + 1/2\<rfloor> \<le> 100" using d by (simp add: floor_le_iff)
  ultimately show ?thesis by (simp add: percent_of_def)
qed

lemma percent_of_mono: "p \<le> q \<Longrightarrow> percent_of p \<le> percent_of q"
  unfolding percent_of_def
  by (intro floor_mono add_right_mono to_double_mono mult_right_mono) simp_all

lemma Math_round_percent: "b \<noteq> 0 \<Longrightarrow> Math_round (times_100 (js_divide a b)) = Num (of_int (percent_of (a / b)))"
  by (simp add: js_divide_def percent_of_def)

subsection \<open>The risk score of a framework in closed form\<close>

lemma getSeverityWeight_cases:
  "getSeverityWeight sev = Inherited_member \<or> getSeverityWeight sev = Weight (numeric_weight sev)"
  by (cases "getSeverityWeight sev") (simp_all add: numeric_weight_def)

lemma numeric_weight_low [simp]: "numeric_weight (Some ''low'') = 1"
  and numeric_weight_critical [simp]: "numeric_weight (Some ''critical'') = 4"
  and getSeverityWeight_low [simp]: "getSeverityWeight (Some ''low'') = Weight 1"
  and getSeverityWeight_critical [simp]: "getSeverityWeight (Some ''critical'') = Weight 4"
  by (simp_all add: numeric_weight_def getSeverityWeight_def)

lemma weighted_failures_simps [simp]:
  "weighted_failures [] = 0"
  "weighted_failures (x # xs) =
     (if status x = FAIL then numeric_weight (result_severity x) else 0) + weighted_failures xs"
  by (simp_all add: weighted_failures_def)

lemma total_weight_simps [simp]:
  "total_weight [] = 0"
  "total_weight (x # xs) =
     (if status x \<noteq> SKIP then numeric_weight (result_severity x) else 0) + total_weight xs"
  by (simp_all add: total_weight_def)

lemma reads_inherited_member_simps [simp]:
  "reads_inherited_member [] = False"
  "reads_inherited_member (x # xs) =
     ((status x \<noteq> SKIP \<and> getSeverityWeight (result_severity x) = Inherited_member)
      \<or> reads_inherited_member xs)"
  by (simp_all add: reads_inherited_member_def)

lemma weighted_failures_append [simp]:
  "weighted_failures (xs @ ys) = weighted_failures xs + weighted_failures ys"
  by (simp add: weighted_failures_def)

lemma total_weight_append [simp]:
  "total_weight (xs @ ys) = total_weight xs + total_weight ys"
  by (simp add: total_weight_def)

lemma reads_inherited_member_append [simp]:
  "reads_inherited_member (xs @ ys) = (reads_inherited_member xs \<or> reads_inherited_member ys)"
  by (simp add: reads_inherited_member_def)

lemma weighted_failures_le: "weighted_failures xs \<le> total_weight xs"
  by (induction xs) auto

lemma foldl_weigh_Text: "snd (foldl weigh (wfl, Text) xs) = Text"
  by (induction xs arbitrary: wfl) (simp_all add: weigh_def Let_def)

lemma snd_weigh:
  "snd (weigh (a, tw) x) =
     (if status x \<noteq> SKIP then js_add tw (getSeverityWeight (result_severity x)) else tw)"
  by (simp add: weigh_def Let_def)

lemma foldl_weigh_inherited:
  "reads_inherited_member xs \<Longrightarrow> snd (foldl weigh (wfl, tw) xs) = Text"
proof (induction xs arbitrary: wfl tw)
  case Nil
  then show ?case by simp
next
  case (Cons x xs)
  obtain a' tw' where w: "weigh (wfl, tw) x = (a', tw')"
    by (cases "weigh (wfl, tw) x")
  show ?case
  proof (cases "status x \<noteq> SKIP \<and> getSeverityWeight (result_severity x) = Inherited_member")
    case True
    then have "js_add tw (getSeverityWeight (result_severity x)) = Text"
      by (cases tw) simp_all
    then have "tw' = Text" using True snd_weigh[of wfl tw x] w by simp
    then show ?thesis using w by (simp add: foldl_weigh_Text)
  next
    case False
    then have "reads_inherited_member xs" using Cons.prems by auto
    then show ?thesis using Cons.IH w by simp
  qed
qed

lemma foldl_weigh_numeric:
  "\<not> reads_inherited_member xs \<Longrightarrow>
   foldl weigh (Number a, Number b) xs = (Number (a + weighted_failures xs), Number (b + total_weight xs))"
proof (induction xs arbitrary: a b)
  case Nil
  then show ?case by simp
next
  case (Cons x xs)
  then have rest: "\<not> reads_inherited_member xs" by simp
  show ?case
  proof (cases "status x = SKIP")
    case True
    then show ?thesis using Cons.IH[OF rest] by (simp add: weigh_def)
  next
    case False
    then have w: "getSeverityWeight (result_severity x) = Weight (numeric_weight (result_severity x))"
      using Cons.prems getSeverityWeight_cases[of "result_severity x"] by auto
    show ?thesis using False w Cons.IH[OF rest] by (simp add: weigh_def Let_def add.assoc)
  qed
qed

lemma calculateFrameworkRiskScore_closed:
  "calculateFrameworkRiskScore fr =
     (if total_fr fr = skipped fr \<or> reads_inherited_member (rule_results fr)
         \<or> total_weight (rule_results fr) = 0
      then Num 0
      else Num (of_int (percent_of (of_nat (weighted_failures (rule_results fr))
                                     / of_nat (total_weight (rule_results fr))))))"
proof (cases "reads_inherited_member (rule_results fr)")
  case True
  obtain wfl tw where f: "foldl weigh (Number 0, Number 0) (rule_results fr) = (wfl, tw)"
    by (cases "foldl weigh (Number 0, Number 0) (rule_results fr)")
  have "tw = Text" using foldl_weigh_inherited[OF True, of "Number 0" "Number 0"] f by simp
  then show ?thesis using True f by (simp add: calculateFrameworkRiskScore_def)
next
  case False
  show ?thesis
    using False foldl_weigh_numeric[OF False, of 0 0]
    by (simp add: calculateFrameworkRiskScore_def Math_round_percent)
qed

lemma risk_score_range:
  "\<exists>n::nat. calculateFrameworkRiskScore fr = Num (of_nat n) \<and> n \<le> 100"
proof (cases "total_fr fr = skipped fr \<or> reads_inherited_member (rule_results fr)
         \<or> total_weight (rule_results fr) = 0")
  case True
  then have "calculateFrameworkRiskScore fr = Num (of_nat 0)"
    by (simp add: calculateFrameworkRiskScore_closed)
  then show ?thesis by blast
next
  case False
  define q :: rat where "q = of_nat (weighted_failures (rule_results fr)) / of_nat (total_weight (rule_results fr))"
  have t: "0 < total_weight (rule_results fr)" using False by simp
  have "0 \<le> q" by (simp add: q_def)
  moreover have "q \<le> 1" using t weighted_failures_le[of "rule_results fr"] by (simp add: q_def)
  ultimately have r: "0 \<le> percent_of q" "percent_of q \<le> 100" using percent_of_range by auto
  have "calculateFrameworkRiskScore fr = Num (of_int (percent_of q))"
    using False by (simp add: calculateFrameworkRiskScore_closed q_def)
  also have "of_int (percent_of q) = (of_nat (nat (percent_of q)) :: rat)" using r by simp
  finally show ?thesis using r by (intro exI[of _ "nat (percent_of q)"]) simp
qed

subsection \<open>Replacing the severity of one outcome\<close>

lemma sums_after_update:
  assumes i: "i < length xs" and f: "status (xs ! i) = FAIL"
    and lo: "result_severity (xs ! i) = Some ''low''"
  defines "ys \<equiv> xs[i := (xs ! i)\<lparr>result_severity := Some ''critical''\<rparr>]"
  shows "weighted_failures ys = weighted_failures xs + 3"
    and "total_weight ys = total_weight xs + 3"
    and "reads_inherited_member ys = reads_inherited_member xs"
proof -
  have xs: "xs = take i xs @ (xs ! i) # drop (Suc i) xs"
    using i by (rule id_take_nth_drop)
  have ys: "ys = take i xs @ (xs ! i)\<lparr>result_severity := Some ''critical''\<rparr> # drop (Suc i) xs"
    unfolding ys_def using i by (rule upd_conv_take_nth_drop)
  have "weighted_failures ys = weighted_failures (take i xs) + 4 + weighted_failures (drop (Suc i) xs)"
    by (subst ys) (simp add: f)
  moreover have "weighted_failures xs = weighted_failures (take i xs) + 1 + weighted_failures (drop (Suc i) xs)"
    by (subst xs) (simp add: f lo)
  ultimately show "weighted_failures ys = weighted_failures xs + 3" by simp
  have "total_weight ys = total_weight (take i xs) + 4 + total_weight (drop (Suc i) xs)"
    by (subst ys) (simp add: f)
  moreover have "total_weight xs = total_weight (take i xs) + 1 + total_weight (drop (Suc i) xs)"
    by (subst xs) (simp add: f lo)
  ultimately show "total_weight ys = total_weight xs + 3" by simp
  have "reads_inherited_member ys = (reads_inherited_member (take i xs) \<or> reads_inherited_member (drop (Suc i) xs))"
    by (subst ys) (simp add: f)
  moreover have "reads_inherited_member xs = (reads_inherited_member (take i xs) \<or> reads_inherited_member (drop (Suc i) xs))"
    by (subst xs) (simp add: f lo)
  ultimately show "reads_inherited_member ys = reads_inherited_member xs" by simp
qed

lemma ratio_grows:
  fixes f t :: nat
  assumes "f \<le> t" "0 < t"
  shows "(of_nat f :: rat) / of_nat t \<le> of_nat (f + 3) / of_nat (t + 3)"
proof -
  have "(of_nat f :: rat) * of_nat (t + 3) \<le> of_nat (f + 3) * of_nat t"
  proof -
    have "f * (t + 3) \<le> (f + 3) * t" using assms by (simp add: algebra_simps)
    then have "(of_nat (f * (t + 3)) :: rat) \<le> of_nat ((f + 3) * t)" by (simp only: of_nat_le_iff)
    then show ?thesis by (simp only: of_nat_mult)
  qed
  then show ?thesis using assms by (simp add: frac_le_eq divide_le_cancel field_simps)
qed

subsection \<open>The registry\<close>

lemma map_of_update_same: "map_of (AList.update k v al) k = Some v"
  by (simp add: update_conv)

lemma map_of_update_other: "k' \<noteq> k \<Longrightarrow> map_of (AList.update k v al) k' = map_of al k'"
  by (simp add: update_conv)

lemma length_update:
  "length (AList.update k v al) = (if k \<in> fst ` set al then length al else Suc (length al))"
  by (induction al) auto

lemma catalog_invariant_new: "catalog_invariant new_engine"
  by (simp add: catalog_invariant_def new_engine_def)

lemma catalog_invariant_registerFramework:
  assumes "catalog_invariant eng"
  shows "catalog_invariant (registerFramework eng fw)"
proof -
  have "map_of (AList.update (fw_code fw) fw (frameworks eng)) k \<noteq> None"
    if "map_of (frameworks eng) k \<noteq> None" for k
    using that by (cases "k = fw_code fw") (simp_all add: update_conv)
  then show ?thesis
    using assms by (auto simp: catalog_invariant_def registerFramework_def list_all_iff)
qed

lemma set_update_subset: "set (AList.update k v al) \<subseteq> insert (k, v) (set al)"
  by (induction al) auto

lemma catalog_invariant_registerRule:
  assumes "catalog_invariant eng"
  shows "catalog_invariant (fst (registerRule eng r))"
proof (cases "map_of (frameworks eng) (framework r) = None")
  case True
  then show ?thesis using assms by (simp add: registerRule_def)
next
  case False
  have "set (AList.update (ruleKey r) r (rules eng)) \<subseteq> insert (ruleKey r, r) (set (rules eng))"
    by (rule set_update_subset)
  then show ?thesis
    using assms False by (auto simp: catalog_invariant_def registerRule_def list_all_iff)
qed

subsection \<open>One rule\<close>

lemma executeRule_status:
  "executeRule r inputData = Inr out \<Longrightarrow> status out = status_of (evaluate r inputData)"
  by (auto simp: executeRule_def status_of_def Let_def split: settled.splits thrown.splits)

lemma executeRule_code:
  "executeRule r inputData = Inr out \<Longrightarrow> rule_code out = code r \<and> result_severity out = severity r"
  by (auto simp: executeRule_def Let_def split: settled.splits thrown.splits)

lemma status_of_not_SKIP: "status_of s \<noteq> SKIP"
  by (simp add: status_of_def split: settled.splits)

lemma executeRule_throws_iff:
  "executeRule_throws inputData r \<longleftrightarrow> evaluate r inputData = Rejects Nullish"
  by (auto simp: executeRule_throws_def executeRule_def Let_def split: settled.splits thrown.splits)

lemma outcome_of_status: "status (outcome_of inputData r) = status_of (evaluate r inputData)"
proof (cases "executeRule r inputData")
  case (Inl e)
  then have "evaluate r inputData = Rejects Nullish"
    using executeRule_throws_iff[of inputData r] by (simp add: executeRule_throws_def)
  then show ?thesis using Inl by (simp add: outcome_of_def status_of_def)
next
  case (Inr out)
  then show ?thesis using executeRule_status[OF Inr] by (simp add: outcome_of_def)
qed

lemma outcome_of_code:
  "rule_code (outcome_of inputData r) = code r \<and> result_severity (outcome_of inputData r) = severity r"
  by (cases "executeRule r inputData") (auto simp: outcome_of_def dest: executeRule_code)

lemma outcome_of_message:
  "evaluate r inputData = Rejects (Error_object m) \<Longrightarrow>
   message (outcome_of inputData r) = ''Rule evaluation error: '' @ m"
  by (simp add: outcome_of_def executeRule_def Let_def)

lemma outcome_of_resolved_message:
  "evaluate r inputData = Resolves ev \<Longrightarrow> message (outcome_of inputData r) = ev_message ev"
  by (simp add: outcome_of_def executeRule_def Let_def)

subsection \<open>The loop over the rules of a framework\<close>

lemma rule_step_fields:
  assumes "rule_step inputData (res, calls) r = (res', calls')"
  shows "calls' = calls @ [ruleKey r]"
    and "rule_results res' = rule_results res @ [outcome_of inputData r]"
    and "passed res' = passed res + (if status_of (evaluate r inputData) = PASS then 1 else 0)"
    and "failed res' = failed res
           + (if status_of (evaluate r inputData) = FAIL \<or> executeRule_throws inputData r then 1 else 0)"
    and "skipped res' = skipped res"
    and "total_fr res' = total_fr res"
    and "fr_framework res' = fr_framework res"
    and "framework_code res' = framework_code res"
    and "fr_version res' = fr_version res"
proof -
  show "calls' = calls @ [ruleKey r]"
    using assms by (auto simp: rule_step_def split: sum.splits)
  show "rule_results res' = rule_results res @ [outcome_of inputData r]"
    using assms by (auto simp: rule_step_def outcome_of_def count_status_def split: sum.splits status.splits)
  show "passed res' = passed res + (if status_of (evaluate r inputData) = PASS then 1 else 0)"
  proof (cases "executeRule r inputData")
    case (Inl e)
    then have "evaluate r inputData = Rejects Nullish"
      using executeRule_throws_iff[of inputData r] by (simp add: executeRule_throws_def)
    then show ?thesis using assms Inl by (auto simp: rule_step_def status_of_def)
  next
    case (Inr out)
    then show ?thesis using assms executeRule_status[OF Inr]
      by (auto simp: rule_step_def count_status_def split: status.splits)
  qed
  show "failed res' = failed res
           + (if status_of (evaluate r inputData) = FAIL \<or> executeRule_throws inputData r then 1 else 0)"
  proof (cases "executeRule r inputData")
    case (Inl e)
    then show ?thesis using assms by (auto simp: rule_step_def executeRule_throws_def)
  next
    case (Inr out)
    then show ?thesis using assms executeRule_status[OF Inr]
      by (auto simp: rule_step_def count_status_def executeRule_throws_def split: status.splits)
  qed
  show "skipped res' = skipped res"
  proof (cases "executeRule r inputData")
    case (Inl e)
    then show ?thesis using assms by (auto simp: rule_step_def)
  next
    case (Inr out)
    then show ?thesis using assms executeRule_status[OF Inr] status_of_not_SKIP[of "evaluate r inputData"]
      by (auto simp: rule_step_def count_status_def split: status.splits)
  qed
  show "total_fr res' = total_fr res" "fr_framework res' = fr_framework res"
    "framework_code res' = framework_code res" "fr_version res' = fr_version res"
    using assms by (auto simp: rule_step_def count_status_def split: sum.splits status.splits)
qed

lemma foldl_rule_step_fields:
  assumes "foldl (rule_step inputData) (res, calls) rs = (res', calls')"
  shows "calls' = calls @ map ruleKey rs
    \<and> rule_results res' = rule_results res @ map (outcome_of inputData) rs
    \<and> passed res' = passed res + length (filter (\<lambda>r. status_of (evaluate r inputData) = PASS) rs)
    \<and> failed res' = failed res
           + length (filter (\<lambda>r. status_of (evaluate r inputData) = FAIL \<or> executeRule_throws inputData r) rs)
    \<and> skipped res' = skipped res \<and> total_fr res' = total_fr res
    \<and> fr_framework res' = fr_framework res \<and> framework_code res' = framework_code res
    \<and> fr_version res' = fr_version res"
  using assms
proof (induction rs arbitrary: res calls)
  case Nil
  then show ?case by simp
next
  case (Cons r rs)
  obtain res1 calls1 where s: "rule_step inputData (res, calls) r = (res1, calls1)"
    by (cases "rule_step inputData (res, calls) r")
  have rest: "foldl (rule_step inputData) (res1, calls1) rs = (res', calls')"
    using Cons.prems s by simp
  note f = rule_step_fields[OF s]
  show ?case using Cons.IH[OF rest] f by simp
qed

subsection \<open>The result of a framework\<close>

lemma compliance_of_update [simp]:
  "compliance_of (fr\<lparr>compliance_percentage := c\<rparr>) = compliance_of fr"
  "compliance_of (fr\<lparr>risk_score := k\<rparr>) = compliance_of fr"
  by (simp_all add: compliance_of_def)

lemma calculateFrameworkRiskScore_update [simp]:
  "calculateFrameworkRiskScore (fr\<lparr>compliance_percentage := c\<rparr>) = calculateFrameworkRiskScore fr"
  "calculateFrameworkRiskScore (fr\<lparr>risk_score := k\<rparr>) = calculateFrameworkRiskScore fr"
  by (simp_all add: calculateFrameworkRiskScore_def)

lemma executeFrameworkRules_fields:
  assumes "executeFrameworkRules eng c rs inputData = (calls, Inr fr)"
  shows "calls = map ruleKey rs"
    and "rule_results fr = map (outcome_of inputData) rs"
    and "total_fr fr = length rs"
    and "passed fr = length (filter (\<lambda>r. status_of (evaluate r inputData) = PASS) rs)"
    and "failed fr = length (filter (\<lambda>r. status_of (evaluate r inputData) = FAIL
                                       \<or> executeRule_throws inputData r) rs)"
    and "skipped fr = 0"
    and "compliance_percentage fr = compliance_of fr"
    and "risk_score fr = calculateFrameworkRiskScore fr"
    and "framework_code fr = c"
    and "\<exists>fw. map_of (frameworks eng) c = Some fw \<and> fr_framework fr = fw_name fw
            \<and> fr_version fr = fw_version fw"
proof -
  obtain fw where fw: "map_of (frameworks eng) c = Some fw"
    using assms by (cases "map_of (frameworks eng) c") (simp_all add: executeFrameworkRules_def)
  define init where
    "init = \<lparr>fr_framework = fw_name fw, framework_code = c, fr_version = fw_version fw,
             total_fr = length rs, passed = 0, failed = 0, skipped = 0,
             compliance_percentage = Num 0, risk_score = Num 0, rule_results = []\<rparr>"
  obtain res calls' where fold: "foldl (rule_step inputData) (init, []) rs = (res, calls')"
    by (cases "foldl (rule_step inputData) (init, []) rs")
  have eq: "calls = calls'"
    "fr = res\<lparr>compliance_percentage := compliance_of res,
             risk_score := calculateFrameworkRiskScore (res\<lparr>compliance_percentage := compliance_of res\<rparr>)\<rparr>"
    using assms fw fold by (simp_all add: executeFrameworkRules_def init_def[symmetric] Let_def)
  note f = foldl_rule_step_fields[OF fold]
  show "calls = map ruleKey rs" using f eq by simp
  show "rule_results fr = map (outcome_of inputData) rs" using f eq by (simp add: init_def)
  show "total_fr fr = length rs" using f eq by (simp add: init_def)
  show "passed fr = length (filter (\<lambda>r. status_of (evaluate r inputData) = PASS) rs)"
    using f eq by (simp add: init_def)
  show "failed fr = length (filter (\<lambda>r. status_of (evaluate r inputData) = FAIL
                                       \<or> executeRule_throws inputData r) rs)"
    using f eq by (simp add: init_def)
  show "skipped fr = 0" using f eq by (simp add: init_def)
  show "compliance_percentage fr = compliance_of fr" using eq by simp
  show "risk_score fr = calculateFrameworkRiskScore fr" using eq by simp
  show "framework_code fr = c" using f eq by (simp add: init_def)
  show "\<exists>fw. map_of (frameworks eng) c = Some fw \<and> fr_framework fr = fw_name fw
            \<and> fr_version fr = fw_version fw"
    using f eq fw by (simp add: init_def)
qed

lemma executeFrameworkRules_returns:
  "map_of (frameworks eng) c \<noteq> None \<Longrightarrow>
   \<exists>fr. executeFrameworkRules eng c rs inputData = (map ruleKey rs, Inr fr)"
proof -
  assume "map_of (frameworks eng) c \<noteq> None"
  then obtain fw where fw: "map_of (frameworks eng) c = Some fw" by blast
  obtain calls r where e: "executeFrameworkRules eng c rs inputData = (calls, r)"
    by (cases "executeFrameworkRules eng c rs inputData")
  then obtain fr where r: "r = Inr fr"
    using fw by (auto simp: executeFrameworkRules_def Let_def split: prod.splits)
  show ?thesis using e r executeFrameworkRules_fields(1)[of eng c rs inputData calls fr] by simp
qed

lemma executeFrameworkRules_unregistered:
  "map_of (frameworks eng) c = None \<Longrightarrow>
   executeFrameworkRules eng c rs inputData = ([], Inl (TypeError ''Cannot read properties of undefined''))"
  by (simp add: executeFrameworkRules_def)

lemma compliance_range:
  assumes "executeFrameworkRules eng c rs inputData = (calls, Inr fr)"
  shows "\<exists>n::nat. compliance_percentage fr = Num (of_nat n) \<and> n \<le> 100"
proof (cases "0 < total_fr fr")
  case False
  then have "compliance_percentage fr = Num (of_nat 0)"
    using executeFrameworkRules_fields(7)[OF assms] by (simp add: compliance_of_def)
  then show ?thesis by blast
next
  case True
  note f = executeFrameworkRules_fields[OF assms]
  define q :: rat where "q = of_nat (passed fr) / of_nat (total_fr fr)"
  have "passed fr \<le> total_fr fr" unfolding f(3,4) by (rule length_filter_le)
  then have "0 \<le> q" "q \<le> 1" using True by (simp_all add: q_def)
  then have r: "0 \<le> percent_of q" "percent_of q \<le> 100" using percent_of_range by auto
  have "compliance_percentage fr = Num (of_int (percent_of q))"
    using True f(6,7) by (simp add: compliance_of_def Math_round_percent q_def)
  also have "of_int (percent_of q) = (of_nat (nat (percent_of q)) :: rat)" using r by simp
  finally show ?thesis using r by (intro exI[of _ "nat (percent_of q)"]) simp
qed

lemma compliance_formula:
  assumes "executeFrameworkRules eng c rs inputData = (calls, Inr fr)"
  shows "compliance_percentage fr =
           (if int (total_fr fr) - int (skipped fr) = 0 then Num 0
            else Math_round (times_100 (js_divide (of_nat (passed fr))
                                           (of_int (int (total_fr fr) - int (skipped fr))))))"
  using executeFrameworkRules_fields(6,7)[OF assms] by (simp add: compliance_of_def)

subsection \<open>Grouping\<close>

lemma keys_update: "fst ` set (AList.update k v al) = insert k (fst ` set al)"
  by (simp add: dom_update)

lemma group_from_keys:
  "group_from groups rs = Inr g \<Longrightarrow> fst ` set g = fst ` set groups \<union> framework ` set rs"
proof (induction rs arbitrary: groups)
  case Nil
  then show ?case by simp
next
  case (Cons r rs)
  show ?case
  proof (cases "map_of groups (framework r)")
    case None
    then have ok: "framework r \<notin> set object_prototype_keys"
      and rest: "group_from (groups @ [(framework r, [r])]) rs = Inr g"
      using Cons.prems by (simp_all split: if_splits)
    show ?thesis using Cons.IH[OF rest] by auto
  next
    case (Some members)
    then have rest: "group_from (AList.update (framework r) (members @ [r]) groups) rs = Inr g"
      using Cons.prems by simp
    show ?thesis using Cons.IH[OF rest] by (auto simp: keys_update)
  qed
qed

lemma group_from_distinct:
  "distinct (map fst groups) \<Longrightarrow> group_from groups rs = Inr g \<Longrightarrow> distinct (map fst g)"
proof (induction rs arbitrary: groups)
  case Nil
  then show ?case by simp
next
  case (Cons r rs)
  show ?case
  proof (cases "map_of groups (framework r)")
    case None
    then have rest: "group_from (groups @ [(framework r, [r])]) rs = Inr g"
      using Cons.prems by (simp_all split: if_splits)
    have "framework r \<notin> fst ` set groups" using None by (simp add: map_of_eq_None_iff)
    then have "distinct (map fst (groups @ [(framework r, [r])]))" using Cons.prems(1) by simp
    then show ?thesis using Cons.IH rest by blast
  next
    case (Some members)
    then have rest: "group_from (AList.update (framework r) (members @ [r]) groups) rs = Inr g"
      using Cons.prems by simp
    have "distinct (map fst (AList.update (framework r) (members @ [r]) groups))"
      using Cons.prems(1) by (rule distinct_update)
    then show ?thesis using Cons.IH rest by blast
  qed
qed

lemma group_from_members:
  "group_from groups rs = Inr g \<Longrightarrow>
   map_of g k =
     (case map_of groups k of
        Some m \<Rightarrow> Some (m @ filter (\<lambda>r. framework r = k) rs)
      | None \<Rightarrow> if k \<in> framework ` set rs then Some (filter (\<lambda>r. framework r = k) rs) else None)"
proof (induction rs arbitrary: groups)
  case Nil
  then show ?case by (simp split: option.splits)
next
  case (Cons r rs)
  show ?case
  proof (cases "map_of groups (framework r)")
    case None
    then have rest: "group_from (groups @ [(framework r, [r])]) rs = Inr g"
      using Cons.prems by (simp_all split: if_splits)
    have m: "map_of (groups @ [(framework r, [r])]) k =
               (case map_of groups k of Some m \<Rightarrow> Some m
                | None \<Rightarrow> if k = framework r then Some [r] else None)"
      by (simp add: map_add_def split: option.splits)
    show ?thesis using Cons.IH[OF rest] None unfolding m
      by (auto split: option.splits)
  next
    case (Some members)
    then have rest: "group_from (AList.update (framework r) (members @ [r]) groups) rs = Inr g"
      using Cons.prems by simp
    show ?thesis using Cons.IH[OF rest] Some
      by (auto simp: update_conv split: option.splits)
  qed
qed

lemma mset_concat_update:
  "distinct (map fst al) \<Longrightarrow> map_of al k = Some m \<Longrightarrow>
   mset (concat (map snd (AList.update k (m @ [r]) al))) = mset (concat (map snd al)) + {#r#}"
proof (induction al)
  case Nil
  then show ?case by simp
next
  case (Cons a al)
  obtain k' v' where a: "a = (k', v')" by (cases a)
  show ?case
  proof (cases "k' = k")
    case True
    then show ?thesis using Cons.prems a by simp
  next
    case False
    then have "map_of al k = Some m" using Cons.prems a by simp
    moreover have "distinct (map fst al)" using Cons.prems by simp
    ultimately show ?thesis using Cons.IH False a by simp
  qed
qed

lemma group_from_mset:
  "distinct (map fst groups) \<Longrightarrow> group_from groups rs = Inr g \<Longrightarrow>
   mset (concat (map snd g)) = mset (concat (map snd groups)) + mset rs"
proof (induction rs arbitrary: groups)
  case Nil
  then show ?case by simp
next
  case (Cons r rs)
  show ?case
  proof (cases "map_of groups (framework r)")
    case None
    then have rest: "group_from (groups @ [(framework r, [r])]) rs = Inr g"
      using Cons.prems by (simp_all split: if_splits)
    have "framework r \<notin> fst ` set groups" using None by (simp add: map_of_eq_None_iff)
    then have d: "distinct (map fst (groups @ [(framework r, [r])]))" using Cons.prems(1) by simp
    show ?thesis using Cons.IH[OF d rest] by simp
  next
    case (Some members)
    then have rest: "group_from (AList.update (framework r) (members @ [r]) groups) rs = Inr g"
      using Cons.prems by simp
    have d: "distinct (map fst (AList.update (framework r) (members @ [r]) groups))"
      using Cons.prems(1) by (rule distinct_update)
    show ?thesis
      using Cons.IH[OF d rest] mset_concat_update[OF Cons.prems(1) Some, of r] by simp
  qed
qed

lemma group_from_returns:
  "list_all (\<lambda>r. framework r \<notin> set object_prototype_keys) rs \<Longrightarrow> \<exists>g. group_from groups rs = Inr g"
proof (induction rs arbitrary: groups)
  case Nil
  then show ?case by simp
next
  case (Cons r rs)
  then show ?case by (cases "map_of groups (framework r)") simp_all
qed

lemma group_from_throws:
  "\<not> list_all (\<lambda>r. framework r \<notin> set object_prototype_keys) rs \<Longrightarrow>
   list_all (\<lambda>entry. fst entry \<notin> set object_prototype_keys) groups \<Longrightarrow>
   group_from groups rs = Inl (TypeError ''groups[rule.framework].push is not a function'')"
proof (induction rs arbitrary: groups)
  case Nil
  then show ?case by simp
next
  case (Cons r rs)
  show ?case
  proof (cases "framework r \<in> set object_prototype_keys")
    case True
    then have "framework r \<notin> fst ` set groups"
      using Cons.prems(2) by (auto simp: list_all_iff)
    then have "map_of groups (framework r) = None" by (simp add: map_of_eq_None_iff)
    then show ?thesis using True by simp
  next
    case False
    then have rest: "\<not> list_all (\<lambda>r. framework r \<notin> set object_prototype_keys) rs"
      using Cons.prems(1) by simp
    show ?thesis
    proof (cases "map_of groups (framework r)")
      case None
      have "list_all (\<lambda>entry. fst entry \<notin> set object_prototype_keys) (groups @ [(framework r, [r])])"
        using Cons.prems(2) False by simp
      then show ?thesis using Cons.IH[OF rest] None False by simp
    next
      case (Some members)
      have "set (AList.update (framework r) (members @ [r]) groups)
              \<subseteq> insert (framework r, members @ [r]) (set groups)"
        by (induction groups) auto
      then have "list_all (\<lambda>entry. fst entry \<notin> set object_prototype_keys)
                   (AList.update (framework r) (members @ [r]) groups)"
        using Cons.prems(2) False by (auto simp: list_all_iff)
      then show ?thesis using Cons.IH[OF rest] Some by simp
    qed
  qed
qed

subsection \<open>The order of the entries of an object\<close>

lemma mset_Object_entries: "mset (Object_entries obj) = mset obj"
  by (simp add: Object_entries_def)

lemma set_Object_entries: "set (Object_entries obj) = set obj"
  using mset_Object_entries[of obj] by (rule mset_eq_setD)

lemma mset_concat_cong: "mset xs = mset ys \<Longrightarrow> mset (concat xs) = mset (concat ys)"
proof -
  assume eq: "mset xs = mset ys"
  have "mset (concat zs) = sum_mset (image_mset mset (mset zs))" for zs :: "'a list list"
    by (induction zs) simp_all
  then show ?thesis using eq by simp
qed

lemma mset_concat_Object_entries:
  "mset (concat (map snd (Object_entries obj))) = mset (concat (map snd obj))"
proof -
  have "mset (map snd (Object_entries obj)) = mset (map snd obj)"
    by (simp add: mset_Object_entries)
  then show ?thesis by (rule mset_concat_cong)
qed

subsection \<open>The loop over the frameworks\<close>

lemma run_frameworks_Inr:
  assumes "run_frameworks eng inputData entries results calls = (calls', Inr res)"
  shows "\<exists>frs. list_all2 (\<lambda>entry fr. executeFrameworkRules eng (fst entry) (snd entry) inputData
                                         = (map ruleKey (snd entry), Inr fr)) entries frs
    \<and> calls' = calls @ concat (map (\<lambda>entry. map ruleKey (snd entry)) entries)
    \<and> passed_rules res = passed_rules results + sum_list (map passed frs)
    \<and> failed_rules res = failed_rules results + sum_list (map failed frs)
    \<and> skipped_rules res = skipped_rules results + sum_list (map skipped frs)
    \<and> detailed_results res = detailed_results results @ concat (map rule_results frs)
    \<and> total_rules res = total_rules results
    \<and> frameworks_tested res = frameworks_tested results
    \<and> input_data_summary res = input_data_summary results
    \<and> overall_risk_score res = overall_risk_score results
    \<and> set (framework_results res) \<subseteq> set (framework_results results) \<union> set (zip (map fst entries) frs)"
  using assms
proof (induction entries arbitrary: results calls)
  case Nil
  then show ?case by simp
next
  case (Cons entry rest)
  obtain made out where e: "executeFrameworkRules eng (fst entry) (snd entry) inputData = (made, out)"
    by (cases "executeFrameworkRules eng (fst entry) (snd entry) inputData")
  obtain fr where out: "out = Inr fr"
    using Cons.prems e by (cases out) simp_all
  have made: "made = map ruleKey (snd entry)"
    using executeFrameworkRules_fields(1)[of eng "fst entry" "snd entry" inputData made fr] e out by simp
  define results1 where
    "results1 = results\<lparr>framework_results :=
                          AList.update (fst entry) fr (framework_results results),
                        passed_rules := passed_rules results + passed fr,
                        failed_rules := failed_rules results + failed fr,
                        skipped_rules := skipped_rules results + skipped fr,
                        detailed_results := detailed_results results @ rule_results fr\<rparr>"
  have run: "run_frameworks eng inputData rest results1 (calls @ made) = (calls', Inr res)"
    using Cons.prems e out by (simp add: results1_def)
  from Cons.IH[OF run] obtain frs where frs:
    "list_all2 (\<lambda>entry fr. executeFrameworkRules eng (fst entry) (snd entry) inputData
                               = (map ruleKey (snd entry), Inr fr)) rest frs"
    "calls' = (calls @ made) @ concat (map (\<lambda>entry. map ruleKey (snd entry)) rest)"
    "passed_rules res = passed_rules results1 + sum_list (map passed frs)"
    "failed_rules res = failed_rules results1 + sum_list (map failed frs)"
    "skipped_rules res = skipped_rules results1 + sum_list (map skipped frs)"
    "detailed_results res = detailed_results results1 @ concat (map rule_results frs)"
    "total_rules res = total_rules results1"
    "frameworks_tested res = frameworks_tested results1"
    "input_data_summary res = input_data_summary results1"
    "overall_risk_score res = overall_risk_score results1"
    "set (framework_results res) \<subseteq> set (framework_results results1) \<union> set (zip (map fst rest) frs)"
    by blast
  have sub: "set (framework_results results1)
               \<subseteq> insert (fst entry, fr) (set (framework_results results))"
    unfolding results1_def using set_update_subset[of "fst entry" fr "framework_results results"]
    by simp
  have "list_all2 (\<lambda>entry fr. executeFrameworkRules eng (fst entry) (snd entry) inputData
                               = (map ruleKey (snd entry), Inr fr)) (entry # rest) (fr # frs)"
    using frs(1) e out made by simp
  moreover have "calls' = calls @ concat (map (\<lambda>entry. map ruleKey (snd entry)) (entry # rest))"
    using frs(2) made by simp
  moreover have "passed_rules res = passed_rules results + sum_list (map passed (fr # frs))"
    using frs(3) by (simp add: results1_def)
  moreover have "failed_rules res = failed_rules results + sum_list (map failed (fr # frs))"
    using frs(4) by (simp add: results1_def)
  moreover have "skipped_rules res = skipped_rules results + sum_list (map skipped (fr # frs))"
    using frs(5) by (simp add: results1_def)
  moreover have "detailed_results res = detailed_results results @ concat (map rule_results (fr # frs))"
    using frs(6) by (simp add: results1_def)
  moreover have "total_rules res = total_rules results" "frameworks_tested res = frameworks_tested results"
    "input_data_summary res = input_data_summary results"
    "overall_risk_score res = overall_risk_score results"
    using frs(7-10) by (simp_all add: results1_def)
  moreover have "set (framework_results res)
                   \<subseteq> set (framework_results results) \<union> set (zip (map fst (entry # rest)) (fr # frs))"
    using frs(11) sub by auto
  ultimately show ?case by blast
qed

lemma run_frameworks_returns:
  "list_all (\<lambda>entry. map_of (frameworks eng) (fst entry) \<noteq> None) entries \<Longrightarrow>
   \<exists>calls' res. run_frameworks eng inputData entries results calls = (calls', Inr res)"
proof (induction entries arbitrary: results calls)
  case Nil
  then show ?case by simp
next
  case (Cons entry rest)
  then have "map_of (frameworks eng) (fst entry) \<noteq> None" by simp
  from executeFrameworkRules_returns[OF this] obtain fr where
    "executeFrameworkRules eng (fst entry) (snd entry) inputData = (map ruleKey (snd entry), Inr fr)"
    by blast
  then show ?case using Cons by simp
qed

subsection \<open>The whole evaluation\<close>

lemma executeCompliance_nullish:
  "executeCompliance eng Null opts = ([], Inl (TypeError ''Cannot convert undefined or null to object''))"
  "executeCompliance eng Undefined opts = ([], Inl (TypeError ''Cannot convert undefined or null to object''))"
  by (simp_all add: executeCompliance_def summarizeInputData_def)

lemma executeCompliance_unserializable:
  "executeCompliance eng (Unserializable m d) opts = ([], Inl (TypeError m))"
  by (simp add: executeCompliance_def summarizeInputData_def)

lemma executeCompliance_Document:
  "executeCompliance eng (Document d) opts =
     (case groupRulesByFramework (filterRules eng (opt_frameworks opts) (opt_categories opts) (opt_severity opts)) of
        Inl error \<Rightarrow> ([], Inl error)
      | Inr groups \<Rightarrow>
          (case run_frameworks eng (Document d) (Object_entries groups)
                  (initial_results (Summary_of d)
                     (length (filterRules eng (opt_frameworks opts) (opt_categories opts) (opt_severity opts)))
                     (Object_keys groups)) [] of
             (calls, Inl error) \<Rightarrow> (calls, Inl error)
           | (calls, Inr results) \<Rightarrow>
               (calls, Inr (results\<lparr>overall_risk_score := calculateRiskScore results\<rparr>))))"
  by (simp add: executeCompliance_def summarizeInputData_def Let_def initial_results_def
        split: sum.splits)

lemma executeCompliance_Inr:
  assumes "executeCompliance eng inputData opts = (calls, Inr res)"
  shows "\<exists>d groups results.
           inputData = Document d
         \<and> groupRulesByFramework (filterRules eng (opt_frameworks opts) (opt_categories opts) (opt_severity opts))
             = Inr groups
         \<and> run_frameworks eng inputData (Object_entries groups)
             (initial_results (Summary_of d)
                (length (filterRules eng (opt_frameworks opts) (opt_categories opts) (opt_severity opts)))
                (Object_keys groups)) [] = (calls, Inr results)
         \<and> res = results\<lparr>overall_risk_score := calculateRiskScore results\<rparr>"
proof (cases inputData)
  case Null
  then show ?thesis using assms by (simp add: executeCompliance_nullish)
next
  case Undefined
  then show ?thesis using assms by (simp add: executeCompliance_nullish)
next
  case (Unserializable m d)
  then show ?thesis using assms by (simp add: executeCompliance_unserializable)
next
  case (Document d)
  show ?thesis
    using assms unfolding Document executeCompliance_Document
    by (auto split: sum.splits prod.splits)
qed

lemma calculateRiskScore_update [simp]:
  "calculateRiskScore (results\<lparr>overall_risk_score := x\<rparr>) = calculateRiskScore results"
  by (simp add: calculateRiskScore_def)

text \<open>Every key of the groups is the framework of a selected rule, hence registered.\<close>

lemma groups_registered:
  assumes inv: "catalog_invariant eng"
    and g: "groupRulesByFramework (filterRules eng fws cats sevs) = Inr groups"
  shows "list_all (\<lambda>entry. map_of (frameworks eng) (fst entry) \<noteq> None) (Object_entries groups)"
proof -
  have sel: "set (filterRules eng fws cats sevs) \<subseteq> snd ` set (rules eng)"
    by (auto simp: filterRules_def Let_def split: option.splits if_splits)
  have keys: "fst ` set groups = framework ` set (filterRules eng fws cats sevs)"
    using group_from_keys[of "[]" _ groups] g by (simp add: groupRulesByFramework_def)
  have reg: "map_of (frameworks eng) (framework r) \<noteq> None" if "r \<in> snd ` set (rules eng)" for r
    using inv that by (auto simp: catalog_invariant_def list_all_iff)
  have "map_of (frameworks eng) k \<noteq> None" if "k \<in> fst ` set groups" for k
  proof -
    from that keys obtain r where r: "r \<in> set (filterRules eng fws cats sevs)" "k = framework r"
      by auto
    then have "r \<in> snd ` set (rules eng)" using sel by blast
    then show ?thesis using reg r(2) by simp
  qed
  then show ?thesis by (auto simp: list_all_iff set_Object_entries)
qed

lemma executeCompliance_returns:
  assumes inv: "catalog_invariant eng"
    and ok: "list_all (\<lambda>r. framework r \<notin> set object_prototype_keys)
               (filterRules eng (opt_frameworks opts) (opt_categories opts) (opt_severity opts))"
  shows "\<exists>calls res. executeCompliance eng (Document d) opts = (calls, Inr res)"
proof -
  from group_from_returns[OF ok, of "[]"] obtain groups where
    g: "groupRulesByFramework (filterRules eng (opt_frameworks opts) (opt_categories opts) (opt_severity opts))
          = Inr groups"
    by (auto simp: groupRulesByFramework_def)
  from run_frameworks_returns[OF groups_registered[OF inv g]] obtain calls results where
    "run_frameworks eng (Document d) (Object_entries groups)
       (initial_results (Summary_of d)
          (length (filterRules eng (opt_frameworks opts) (opt_categories opts) (opt_severity opts)))
          (Object_keys groups)) [] = (calls, Inr results)"
    by blast
  then show ?thesis using g by (simp add: executeCompliance_Document)
qed

subsection \<open>The structure of a returned evaluation\<close>

lemma framework_results_of_entries:
  assumes "list_all2 (\<lambda>entry fr. executeFrameworkRules eng (fst entry) (snd entry) inputData
                                       = (map ruleKey (snd entry), Inr fr)) entries frs"
  shows "concat (map rule_results frs) = map (outcome_of inputData) (concat (map snd entries))"
    and "sum_list (map skipped frs) = 0"
  using assms
proof (induction entries frs rule: list_all2_induct)
  case Nil
  {
    case 1 show ?case by simp
  next
    case 2 show ?case by simp
  }
next
  case (Cons entry fr entries frs)
  note f = executeFrameworkRules_fields[OF Cons.hyps(1)]
  {
    case 1 show ?case using Cons.IH(1) f(2) by simp
  next
    case 2 show ?case using Cons.IH(2) f(6) by simp
  }
qed

lemma executeCompliance_structure:
  assumes "executeCompliance eng inputData opts = (calls, Inr res)"
  shows "\<exists>groups frs.
           groupRulesByFramework (filterRules eng (opt_frameworks opts) (opt_categories opts) (opt_severity opts))
             = Inr groups
         \<and> list_all2 (\<lambda>entry fr. executeFrameworkRules eng (fst entry) (snd entry) inputData
                                       = (map ruleKey (snd entry), Inr fr)) (Object_entries groups) frs
         \<and> calls = map ruleKey (concat (map snd (Object_entries groups)))
         \<and> detailed_results res = map (outcome_of inputData) (concat (map snd (Object_entries groups)))
         \<and> total_rules res
             = length (filterRules eng (opt_frameworks opts) (opt_categories opts) (opt_severity opts))
         \<and> passed_rules res = sum_list (map passed frs)
         \<and> failed_rules res = sum_list (map failed frs)
         \<and> skipped_rules res = 0
         \<and> frameworks_tested res = Object_keys groups
         \<and> overall_risk_score res = calculateRiskScore res
         \<and> set (framework_results res) \<subseteq> set (zip (map fst (Object_entries groups)) frs)"
proof -
  from executeCompliance_Inr[OF assms] obtain d groups results where
    d: "inputData = Document d"
    and g: "groupRulesByFramework (filterRules eng (opt_frameworks opts) (opt_categories opts) (opt_severity opts))
             = Inr groups"
    and run: "run_frameworks eng inputData (Object_entries groups)
             (initial_results (Summary_of d)
                (length (filterRules eng (opt_frameworks opts) (opt_categories opts) (opt_severity opts)))
                (Object_keys groups)) [] = (calls, Inr results)"
    and res: "res = results\<lparr>overall_risk_score := calculateRiskScore results\<rparr>"
    by blast
  from run_frameworks_Inr[OF run] obtain frs where frs:
    "list_all2 (\<lambda>entry fr. executeFrameworkRules eng (fst entry) (snd entry) inputData
                               = (map ruleKey (snd entry), Inr fr)) (Object_entries groups) frs"
    "calls = [] @ concat (map (\<lambda>entry. map ruleKey (snd entry)) (Object_entries groups))"
    "passed_rules results = 0 + sum_list (map passed frs)"
    "failed_rules results = 0 + sum_list (map failed frs)"
    "skipped_rules results = 0 + sum_list (map skipped frs)"
    "detailed_results results = [] @ concat (map rule_results frs)"
    "total_rules results
       = length (filterRules eng (opt_frameworks opts) (opt_categories opts) (opt_severity opts))"
    "frameworks_tested results = Object_keys groups"
    "set (framework_results results) \<subseteq> {} \<union> set (zip (map fst (Object_entries groups)) frs)"
    by (auto simp: initial_results_def)
  note e = framework_results_of_entries[OF frs(1)]
  have c: "calls = map ruleKey (concat (map snd (Object_entries groups)))"
    using frs(2) by (simp add: map_concat comp_def)
  show ?thesis
    using g frs(1) c frs(3-9) e unfolding res
    by (intro exI[of _ groups] exI[of _ frs]) simp
qed

lemma whole_percentage_iff: "whole_percentage x \<longleftrightarrow> (\<exists>n::nat. n \<le> 100 \<and> x = Num (of_nat n))"
proof
  assume "whole_percentage x"
  then obtain n :: nat where "n < 101" "x = Num (of_nat n)"
    by (auto simp: whole_percentage_def)
  then show "\<exists>n::nat. n \<le> 100 \<and> x = Num (of_nat n)" by (intro exI[of _ n]) simp
next
  assume "\<exists>n::nat. n \<le> 100 \<and> x = Num (of_nat n)"
  then obtain n :: nat where "n \<le> 100" "x = Num (of_nat n)" by blast
  then have "n \<in> set [0..<101]" by simp
  then show "whole_percentage x" unfolding whole_percentage_def using \<open>x = Num (of_nat n)\<close>
    by (simp only: set_map image_eqI)
qed

lemma framework_result_percentages:
  assumes "executeFrameworkRules eng c rs inputData = (calls, Inr fr)"
  shows "compliance_percentage fr =
           (if int (total_fr fr) - int (skipped fr) = 0 then Num 0
            else Math_round (times_100 (js_divide (of_nat (passed fr))
                                           (of_int (int (total_fr fr) - int (skipped fr))))))
       \<and> whole_percentage (compliance_percentage fr) \<and> whole_percentage (risk_score fr)"
proof -
  have "whole_percentage (compliance_percentage fr)"
    using compliance_range[OF assms] by (auto simp: whole_percentage_iff)
  moreover have "whole_percentage (risk_score fr)"
    using risk_score_range[of fr] executeFrameworkRules_fields(8)[OF assms]
    by (auto simp: whole_percentage_iff)
  ultimately show ?thesis using compliance_formula[OF assms] by simp
qed

lemma entries_of_evaluation:
  assumes "executeCompliance eng inputData opts = (calls, Inr res)"
    and "entry \<in> set (framework_results res)"
  shows "\<exists>rs. executeFrameworkRules eng (fst entry) rs inputData = (map ruleKey rs, Inr (snd entry))
              \<and> rs \<noteq> []"
proof -
  from executeCompliance_structure[OF assms(1)] obtain groups frs where
    g: "groupRulesByFramework (filterRules eng (opt_frameworks opts) (opt_categories opts) (opt_severity opts))
             = Inr groups"
    and l: "list_all2 (\<lambda>entry fr. executeFrameworkRules eng (fst entry) (snd entry) inputData
                                       = (map ruleKey (snd entry), Inr fr)) (Object_entries groups) frs"
    and s: "set (framework_results res) \<subseteq> set (zip (map fst (Object_entries groups)) frs)"
    by blast
  have "entry \<in> set (zip (map fst (Object_entries groups)) frs)" using assms(2) s by blast
  then obtain i where i: "i < length (Object_entries groups)" "i < length frs"
    "entry = (fst (Object_entries groups ! i), frs ! i)"
    by (auto simp: in_set_zip)
  have ex: "executeFrameworkRules eng (fst (Object_entries groups ! i)) (snd (Object_entries groups ! i)) inputData
          = (map ruleKey (snd (Object_entries groups ! i)), Inr (frs ! i))"
    using l i(1) by (simp add: list_all2_conv_all_nth)
  have mem: "Object_entries groups ! i \<in> set groups"
    using i(1) set_Object_entries[of groups] nth_mem by blast
  have "snd (Object_entries groups ! i) \<noteq> []"
  proof -
    obtain k ms where km: "Object_entries groups ! i = (k, ms)" by (cases "Object_entries groups ! i")
    have d: "distinct (map fst groups)"
      using group_from_distinct[of "[]" _ groups] g by (simp add: groupRulesByFramework_def)
    have "map_of groups k = Some ms" using mem km d by simp
    moreover have "map_of groups k =
       (if k \<in> framework ` set (filterRules eng (opt_frameworks opts) (opt_categories opts) (opt_severity opts))
        then Some (filter (\<lambda>r. framework r = k)
                     (filterRules eng (opt_frameworks opts) (opt_categories opts) (opt_severity opts)))
        else None)"
      using group_from_members[of "[]" _ groups k] g by (simp add: groupRulesByFramework_def)
    ultimately have "k \<in> framework ` set (filterRules eng (opt_frameworks opts) (opt_categories opts) (opt_severity opts))"
      and "ms = filter (\<lambda>r. framework r = k)
                     (filterRules eng (opt_frameworks opts) (opt_categories opts) (opt_severity opts))"
      by (auto split: if_splits)
    then have "ms \<noteq> []" by (auto simp: filter_empty_conv)
    then show ?thesis using km by simp
  qed
  then show ?thesis using ex i(3) by (intro exI[of _ "snd (Object_entries groups ! i)"]) simp
qed

subsection \<open>The code against the specification's formulations\<close>

lemma numeric_weight_spec:
  "getSeverityWeight sev \<noteq> Inherited_member \<Longrightarrow> numeric_weight sev = spec_weight sev"
  by (auto simp: numeric_weight_def getSeverityWeight_def spec_weight_def split: option.splits if_splits)

lemma spec_weight_pos: "0 < spec_weight sev"
  by (simp add: spec_weight_def)

lemma sums_as_specified:
  "\<not> reads_inherited_member outs \<Longrightarrow>
   weighted_failures outs
     = sum_list (map (\<lambda>out. spec_weight (result_severity out)) (filter (\<lambda>out. status out = FAIL) outs))
   \<and> total_weight outs
     = sum_list (map (\<lambda>out. spec_weight (result_severity out)) (filter (\<lambda>out. status out \<noteq> SKIP) outs))"
proof (induction outs)
  case Nil
  then show ?case by simp
next
  case (Cons x xs)
  then have rest: "\<not> reads_inherited_member xs" by simp
  have w: "numeric_weight (result_severity x) = spec_weight (result_severity x)" if "status x \<noteq> SKIP"
    using that Cons.prems by (intro numeric_weight_spec) auto
  show ?case using Cons.IH[OF rest] w by auto
qed

lemma total_weight_zero_iff:
  "\<not> reads_inherited_member outs \<Longrightarrow>
   total_weight outs = 0 \<longleftrightarrow> length (filter (\<lambda>out. status out = SKIP) outs) = length outs"
proof (induction outs)
  case Nil
  then show ?case by simp
next
  case (Cons x xs)
  then have rest: "\<not> reads_inherited_member xs" by simp
  have le: "length (filter (\<lambda>out. status out = SKIP) xs) \<le> length xs" by (rule length_filter_le)
  show ?case
  proof (cases "status x = SKIP")
    case True
    then show ?thesis using Cons.IH[OF rest] by simp
  next
    case False
    have "numeric_weight (result_severity x) = spec_weight (result_severity x)"
      using False Cons.prems by (intro numeric_weight_spec) auto
    then have "0 < numeric_weight (result_severity x)" using spec_weight_pos by simp
    moreover have "length (filter (\<lambda>out. status out = SKIP) xs) \<noteq> Suc (length xs)"
      using le by linarith
    ultimately show ?thesis using False by simp
  qed
qed

text \<open>
  When no counted outcome has a severity that names an inherited member, and the counters
  of the framework result are those of its list of outcomes, the code computes the
  specification's formula.
\<close>

lemma risk_score_as_specified:
  assumes "\<not> reads_inherited_member (rule_results fr)"
    and "total_fr fr = length (rule_results fr)"
    and "skipped fr = length (filter (\<lambda>out. status out = SKIP) (rule_results fr))"
  shows "calculateFrameworkRiskScore fr = spec_risk_score (rule_results fr)"
proof -
  note s = sums_as_specified[OF assms(1)]
  have z: "(total_weight (rule_results fr) = 0) = (total_fr fr = skipped fr)"
    unfolding assms(2,3) total_weight_zero_iff[OF assms(1)] by (rule eq_commute)
  show ?thesis
  proof (cases "total_weight (rule_results fr) = 0")
    case True
    then show ?thesis
      using s z by (simp add: calculateFrameworkRiskScore_closed spec_risk_score_def Let_def)
  next
    case False
    then show ?thesis
      using s z assms(1)
      by (simp add: calculateFrameworkRiskScore_closed spec_risk_score_def Let_def Math_round_percent)
  qed
qed

lemma filter_step:
  "(case allow of
      Some ys \<Rightarrow> if 0 < length ys then filter (\<lambda>r. g r \<in> set ys) xs else xs
    | None \<Rightarrow> xs)
   = filter (\<lambda>r. satisfies allow (Some (g r))) xs"
  by (cases allow) (auto simp: satisfies_def)

lemma filter_step_severity:
  "(case allow of
      Some ys \<Rightarrow> if 0 < length ys then filter (\<lambda>r. includes_severity ys (g r)) xs else xs
    | None \<Rightarrow> xs)
   = filter (\<lambda>r. satisfies allow (g r)) xs"
proof (cases allow)
  case None
  then show ?thesis by (simp add: satisfies_def)
next
  case (Some ys)
  have "includes_severity ys v = (case v of None \<Rightarrow> False | Some s \<Rightarrow> s \<in> set ys)" for v
    by (simp add: includes_severity_def)
  then show ?thesis using Some by (auto simp: satisfies_def intro: filter_cong)
qed

lemma filterRules_as_specified:
  "filterRules eng (opt_frameworks opts) (opt_categories opts) (opt_severity opts) = spec_selected eng opts"
  unfolding filterRules_def Let_def filter_step filter_step_severity spec_selected_def getRules_def
  by (simp add: conj_commute conj_left_commute cong: filter_cong)

lemma spec_selected_no_filter:
  "spec_selected eng no_options = getRules eng"
  "spec_selected eng \<lparr>opt_frameworks = Some [], opt_categories = Some [], opt_severity = Some []\<rparr>
     = getRules eng"
  by (simp_all add: spec_selected_def no_options_def satisfies_def)

lemma spec_selected_unregistered:
  assumes inv: "catalog_invariant eng"
    and ne: "fs \<noteq> []"
    and un: "list_all (\<lambda>f. f \<notin> fst ` set (frameworks eng)) fs"
  shows "spec_selected eng (opts\<lparr>opt_frameworks := Some fs\<rparr>) = []"
proof -
  have "framework r \<notin> set fs" if "r \<in> set (getRules eng)" for r
  proof -
    have "map_of (frameworks eng) (framework r) \<noteq> None"
      using inv that by (auto simp: catalog_invariant_def list_all_iff getRules_def)
    then have "framework r \<in> fst ` set (frameworks eng)" by (simp add: map_of_eq_None_iff)
    then show ?thesis using un by (auto simp: list_all_iff)
  qed
  then show ?thesis using ne by (auto simp: spec_selected_def satisfies_def filter_empty_conv)
qed

subsection \<open>The percentage in double precision against the exact one\<close>

lemma round_half_even_error: "\<bar>of_int (round_half_even z) - z\<bar> \<le> 1/2"
proof -
  have "of_int \<lfloor>z\<rfloor> \<le> z" "z < of_int \<lfloor>z\<rfloor> + 1" by linarith+
  then show ?thesis by (auto simp: round_half_even_def Let_def)
qed

lemma to_double_error:
  assumes "0 \<le> x"
  shows "\<bar>to_double x - x\<bar> \<le> x / 2 ^ 53"
proof (cases "x = 0")
  case True
  then show ?thesis by simp
next
  case False
  then have pos: "0 < x" using assms by simp
  define e where "e = binary_exponent x"
  define u :: rat where "u = 2 powi (e - 52)"
  have u0: "0 < u" by (simp add: u_def)
  have lo: "2 powi e \<le> x" using binary_exponent_bounds[OF pos] by (simp add: e_def)
  have pe: "(2::rat) powi e = 2 ^ 52 * u" by (simp add: u_def power_int_diff)
  have td: "to_double x = of_int (round_half_even (x / u)) * u"
    using pos by (simp add: to_double_def Let_def u_def e_def)
  have "to_double x - x = (of_int (round_half_even (x / u)) - x / u) * u"
    using u0 by (simp add: td algebra_simps)
  then have "\<bar>to_double x - x\<bar> = \<bar>of_int (round_half_even (x / u)) - x / u\<bar> * u"
    using u0 by (simp add: abs_mult)
  also have "\<dots> \<le> (1/2) * u"
    using round_half_even_error[of "x / u"] u0 by (intro mult_right_mono) simp_all
  also have "(1/2) * u = (2 ^ 52 * u) / 2 ^ 53" by simp
  also have "\<dots> \<le> x / 2 ^ 53" using lo unfolding pe by (intro divide_right_mono) simp_all
  finally show ?thesis .
qed

lemma percent_error:
  assumes "0 \<le> q" "q \<le> 1"
  shows "\<bar>to_double (to_double q * 100) - q * 100\<bar> \<le> 200 / 2 ^ 53"
proof -
  define p where "p = to_double q"
  have p0: "0 \<le> p" unfolding p_def using assms(1) by (rule to_double_nonneg)
  have "p \<le> to_double 1" unfolding p_def using assms(2) by (rule to_double_mono)
  then have p1: "p \<le> 1" by (simp add: to_double_1)
  have "\<bar>p - q\<bar> \<le> q / 2 ^ 53" unfolding p_def using assms(1) by (rule to_double_error)
  also have "\<dots> \<le> 1 / 2 ^ 53" using assms(2) by (intro divide_right_mono) simp_all
  finally have a: "\<bar>p - q\<bar> \<le> 1 / 2 ^ 53" .
  have "\<bar>to_double (p * 100) - p * 100\<bar> \<le> (p * 100) / 2 ^ 53"
    using p0 by (intro to_double_error) simp
  also have "\<dots> \<le> 100 / 2 ^ 53" using p1 by (intro divide_right_mono) simp_all
  finally have b: "\<bar>to_double (p * 100) - p * 100\<bar> \<le> 100 / 2 ^ 53" .
  have "\<bar>to_double (p * 100) - q * 100\<bar> \<le> \<bar>to_double (p * 100) - p * 100\<bar> + \<bar>p - q\<bar> * 100"
    by (simp add: abs_if split: if_splits)
  then show ?thesis using a b unfolding p_def by linarith
qed

text \<open>
  For fewer than \<open>2^44\<close> items the percentage computed in double precision is the exact
  percentage rounded half up, except when the exact percentage lies halfway between two
  whole numbers: then it is that number or one less.
\<close>

lemma percent_of_exact:
  fixes a b :: nat
  assumes ab: "a \<le> b" and b0: "0 < b" and bb: "b < 2 ^ 44"
  shows "percent_of (of_nat a / of_nat b) = \<lfloor>(of_nat a :: rat) / of_nat b * 100 + 1/2\<rfloor>
       \<or> (halfway a b
          \<and> percent_of (of_nat a / of_nat b) = \<lfloor>(of_nat a :: rat) / of_nat b * 100 + 1/2\<rfloor> - 1)"
proof -
  define q :: rat where "q = of_nat a / of_nat b"
  define n where "n = 200 * a + b"
  define m where "m = 2 * b"
  define X :: rat where "X = q * 100 + 1/2"
  define Y :: rat where "Y = to_double (to_double q * 100) + 1/2"
  define E where "E = int (n div m)"
  define r where "r = n mod m"
  have m0: "0 < m" using b0 by (simp add: m_def)
  have q01: "0 \<le> q" "q \<le> 1" using ab b0 by (simp_all add: q_def)
  have Xnm: "X = of_nat n / of_nat m"
    using b0 by (simp add: X_def q_def n_def m_def field_simps)
  have "n = m * (n div m) + r" by (simp add: r_def)
  then have "(of_nat n :: rat) = of_nat m * of_nat (n div m) + of_nat r"
    by (metis of_nat_add of_nat_mult)
  then have XE: "X = of_int E + of_nat r / of_nat m"
    using m0 by (simp add: Xnm E_def field_simps)
  have rm: "r < m" using m0 by (simp add: r_def)
  have fl: "\<lfloor>X\<rfloor> = E"
  proof (rule floor_unique)
    show "of_int E \<le> X" unfolding XE by simp
    have "(of_nat r :: rat) / of_nat m < 1" using rm m0 by simp
    then show "X < of_int E + 1" unfolding XE by simp
  qed
  define eps :: rat where "eps = 200 / 2 ^ 53"
  have "\<bar>Y - X\<bar> \<le> eps"
    using percent_error[OF q01] by (simp add: Y_def X_def eps_def)
  then have err: "Y - X \<le> eps" "X - Y \<le> eps" by linarith+
  have one: "eps < 1" by (simp add: eps_def)
  have small: "eps < 1 / of_nat m"
  proof -
    have "m < 2 ^ 45" using bb by (simp add: m_def)
    then have "(of_nat m :: rat) < of_nat (2 ^ 45)" by (simp only: of_nat_less_iff)
    then have "(of_nat m :: rat) < 2 ^ 45" by simp
    then have "1 / (2 ^ 45 :: rat) < 1 / of_nat m"
      using m0 by (intro divide_strict_left_mono) simp_all
    moreover have "eps < 1 / 2 ^ 45" by (simp add: eps_def)
    ultimately show ?thesis by linarith
  qed
  have P: "percent_of q = \<lfloor>Y\<rfloor>" by (simp add: percent_of_def Y_def)
  show ?thesis
  proof (cases "r = 0")
    case True
    then have XeqE: "X = of_int E" using XE by simp
    have h: "halfway a b" using True by (simp add: halfway_def r_def n_def m_def)
    have "of_int E - 1 \<le> Y" using err one unfolding XeqE by linarith
    then have lo: "of_int (E - 1) \<le> Y" by simp
    have hi: "Y < of_int E + 1" using err one unfolding XeqE by linarith
    have "\<lfloor>Y\<rfloor> = E \<or> \<lfloor>Y\<rfloor> = E - 1"
    proof (cases "of_int E \<le> Y")
      case True
      then have "\<lfloor>Y\<rfloor> = E" using hi by (intro floor_unique) simp_all
      then show ?thesis by simp
    next
      case False
      then have "\<lfloor>Y\<rfloor> = E - 1" using lo by (intro floor_unique) simp_all
      then show ?thesis by simp
    qed
    then show ?thesis using h fl P unfolding q_def[symmetric] X_def[symmetric] by auto
  next
    case False
    then have r1: "1 \<le> r" by simp
    have "(1::rat) / of_nat m \<le> of_nat r / of_nat m"
      using r1 m0 by (intro divide_right_mono) simp_all
    then have lo: "of_int E + 1 / of_nat m \<le> X" unfolding XE by simp
    have "r + 1 \<le> m" using rm by simp
    then have "(of_nat (r + 1) :: rat) \<le> of_nat m" by (simp only: of_nat_le_iff)
    then have "(of_nat r :: rat) / of_nat m \<le> 1 - 1 / of_nat m"
      using m0 by (simp add: field_simps)
    then have hi: "X \<le> of_int E + 1 - 1 / of_nat m" unfolding XE by simp
    have "of_int E \<le> Y" using err small lo by linarith
    moreover have "Y < of_int E + 1" using err small hi by linarith
    ultimately have "\<lfloor>Y\<rfloor> = E" by (intro floor_unique) simp_all
    then show ?thesis using fl P unfolding q_def[symmetric] X_def[symmetric] by simp
  qed
qed

subsection \<open>Outcomes and counts of a returned evaluation\<close>

lemma outcome_of_reflects: "outcome_reflects inputData r (outcome_of inputData r)"
  by (simp add: outcome_reflects_def outcome_of_def executeRule_def Let_def
        split: settled.splits thrown.splits)

lemma counts_of_entries:
  assumes "list_all2 (\<lambda>entry fr. executeFrameworkRules eng (fst entry) (snd entry) inputData
                                       = (map ruleKey (snd entry), Inr fr)) entries frs"
  shows "sum_list (map failed frs) \<le> length (concat (map snd entries))
       \<and> sum_list (map passed frs) \<le> length (concat (map snd entries))"
  using assms
proof (induction entries frs rule: list_all2_induct)
  case Nil
  then show ?case by simp
next
  case (Cons entry entries fr frs)
  note f = executeFrameworkRules_fields[OF Cons.hyps(1)]
  have "failed fr \<le> length (snd entry)" unfolding f(5) by (rule length_filter_le)
  moreover have "passed fr \<le> length (snd entry)" unfolding f(4) by (rule length_filter_le)
  ultimately show ?case using Cons.IH by simp
qed

lemma evaluation_outcomes:
  assumes "executeCompliance eng inputData opts = (calls, Inr res)"
  shows "\<exists>order.
           mset order = mset (filterRules eng (opt_frameworks opts) (opt_categories opts) (opt_severity opts))
         \<and> calls = map ruleKey order
         \<and> total_rules res = length order
         \<and> list_all2 (outcome_reflects inputData) order (detailed_results res)
         \<and> failed_rules res \<le> total_rules res
         \<and> skipped_rules res = 0"
proof -
  from executeCompliance_structure[OF assms] obtain groups frs where
    g: "groupRulesByFramework (filterRules eng (opt_frameworks opts) (opt_categories opts) (opt_severity opts))
             = Inr groups"
    and l: "list_all2 (\<lambda>entry fr. executeFrameworkRules eng (fst entry) (snd entry) inputData
                                       = (map ruleKey (snd entry), Inr fr)) (Object_entries groups) frs"
    and c: "calls = map ruleKey (concat (map snd (Object_entries groups)))"
    and dr: "detailed_results res
               = map (outcome_of inputData) (concat (map snd (Object_entries groups)))"
    and tr: "total_rules res
               = length (filterRules eng (opt_frameworks opts) (opt_categories opts) (opt_severity opts))"
    and fa: "failed_rules res = sum_list (map failed frs)"
    and sk: "skipped_rules res = 0"
    by blast
  define order where "order = concat (map snd (Object_entries groups))"
  have "mset (concat (map snd groups))
          = mset (filterRules eng (opt_frameworks opts) (opt_categories opts) (opt_severity opts))"
    using group_from_mset[of "[]" _ groups] g by (simp add: groupRulesByFramework_def)
  then have m: "mset order
          = mset (filterRules eng (opt_frameworks opts) (opt_categories opts) (opt_severity opts))"
    by (simp add: order_def mset_concat_Object_entries)
  have len: "total_rules res = length order"
    using tr mset_eq_length[OF m] by simp
  have "list_all2 (outcome_reflects inputData) order (map (outcome_of inputData) order)"
    unfolding list_all2_map2 by (rule list_all2_refl) (rule outcome_of_reflects)
  then have lr: "list_all2 (outcome_reflects inputData) order (detailed_results res)"
    by (simp add: dr order_def)
  have "failed_rules res \<le> length order"
    using counts_of_entries[OF l] fa by (simp add: order_def)
  then have fl: "failed_rules res \<le> total_rules res" using len by simp
  show ?thesis using m c len lr fl sk unfolding order_def[symmetric]
    by (intro exI[of _ order]) simp
qed

lemma executeCompliance_called:
  assumes inv: "catalog_invariant eng"
    and e: "executeCompliance eng inputData opts = (calls, out)"
    and called: "calls \<noteq> []"
  shows "\<exists>res. out = Inr res"
proof (cases inputData)
  case Null
  then show ?thesis using e called by (simp add: executeCompliance_nullish)
next
  case Undefined
  then show ?thesis using e called by (simp add: executeCompliance_nullish)
next
  case (Unserializable m d)
  then show ?thesis using e called by (simp add: executeCompliance_unserializable)
next
  case (Document d)
  show ?thesis
  proof (cases "groupRulesByFramework
                  (filterRules eng (opt_frameworks opts) (opt_categories opts) (opt_severity opts))")
    case (Inl err)
    then show ?thesis using e called unfolding Document executeCompliance_Document by simp
  next
    case (Inr groups)
    from run_frameworks_returns[OF groups_registered[OF inv Inr]] obtain calls' results where
      "run_frameworks eng (Document d) (Object_entries groups)
         (initial_results (Summary_of d)
            (length (filterRules eng (opt_frameworks opts) (opt_categories opts) (opt_severity opts)))
            (Object_keys groups)) [] = (calls', Inr results)"
      by blast
    then show ?thesis using e Inr unfolding Document executeCompliance_Document by auto
  qed
qed

subsection \<open>The percentages against the specification's formula\<close>

lemma percentage_up_to_ties:
  fixes a b :: nat
  assumes "a \<le> b" "0 < b" "b < 2 ^ 44"
  shows "Math_round (times_100 (js_divide (of_nat a) (of_int (int b - int 0)))) = spec_percentage a b 0
       \<or> (halfway a b
          \<and> Math_round (times_100 (js_divide (of_nat a) (of_int (int b - int 0))))
              = one_less (spec_percentage a b 0))"
proof -
  have b: "(of_nat b :: rat) \<noteq> 0" using assms(2) by simp
  have "Math_round (times_100 (js_divide (of_nat a) (of_int (int b - int 0))))
          = Num (of_int (percent_of (of_nat a / of_nat b)))"
    using Math_round_percent[OF b, of "of_nat a"] by simp
  moreover have "spec_percentage a b 0 = Num (of_int \<lfloor>(of_nat a :: rat) / of_nat b * 100 + 1/2\<rfloor>)"
    using assms(2) by (simp add: spec_percentage_def)
  ultimately show ?thesis using percent_of_exact[OF assms] by auto
qed

lemma compliance_up_to_ties:
  assumes e: "executeFrameworkRules eng c rs inputData = (calls, Inr fr)"
    and small: "total_fr fr < 2 ^ 44"
  shows "compliance_percentage fr = spec_percentage (passed fr) (total_fr fr) (skipped fr)
       \<or> (halfway (passed fr) (total_fr fr)
          \<and> compliance_percentage fr = one_less (spec_percentage (passed fr) (total_fr fr) (skipped fr)))"
proof (cases "0 < total_fr fr")
  case False
  then show ?thesis
    using executeFrameworkRules_fields(6,7)[OF e] by (simp add: compliance_of_def spec_percentage_def)
next
  case True
  note f = executeFrameworkRules_fields[OF e]
  have le: "passed fr \<le> total_fr fr" unfolding f(3,4) by (rule length_filter_le)
  have "compliance_percentage fr
          = Math_round (times_100 (js_divide (of_nat (passed fr)) (of_int (int (total_fr fr) - int 0))))"
    using True f(6,7) by (simp add: compliance_of_def)
  then show ?thesis using percentage_up_to_ties[OF le True small] f(6) by simp
qed

lemma overall_up_to_ties:
  assumes e: "executeCompliance eng inputData opts = (calls, Inr res)"
    and small: "total_rules res < 2 ^ 44"
  shows "overall_risk_score res = spec_percentage (failed_rules res) (total_rules res) (skipped_rules res)
       \<or> (halfway (failed_rules res) (total_rules res)
          \<and> overall_risk_score res
              = one_less (spec_percentage (failed_rules res) (total_rules res) (skipped_rules res)))"
proof -
  from evaluation_outcomes[OF e] have le: "failed_rules res \<le> total_rules res"
    and sk: "skipped_rules res = 0" by blast+
  from executeCompliance_structure[OF e]
  have o: "overall_risk_score res = calculateRiskScore res" by blast
  show ?thesis
  proof (cases "0 < total_rules res")
    case False
    then show ?thesis using o sk by (simp add: calculateRiskScore_def spec_percentage_def)
  next
    case True
    have "overall_risk_score res
          = Math_round (times_100 (js_divide (of_nat (failed_rules res))
                                     (of_int (int (total_rules res) - int 0))))"
      using True o sk by (simp add: calculateRiskScore_def Let_def)
    then show ?thesis using percentage_up_to_ties[OF le True small] sk by simp
  qed
qed

lemma overall_whole_percentage:
  assumes e: "executeCompliance eng inputData opts = (calls, Inr res)"
  shows "whole_percentage (overall_risk_score res)"
proof -
  from evaluation_outcomes[OF e] have le: "failed_rules res \<le> total_rules res"
    and sk: "skipped_rules res = 0" by blast+
  from executeCompliance_structure[OF e]
  have o: "overall_risk_score res = calculateRiskScore res" by blast
  show ?thesis
  proof (cases "0 < total_rules res")
    case False
    then have "overall_risk_score res = Num (of_nat 0)" using o by (simp add: calculateRiskScore_def)
    then show ?thesis unfolding whole_percentage_iff by (intro exI[of _ 0]) simp
  next
    case True
    define q :: rat where "q = of_nat (failed_rules res) / of_nat (total_rules res)"
    have "0 \<le> q" "q \<le> 1" using True le by (simp_all add: q_def)
    then have r: "0 \<le> percent_of q" "percent_of q \<le> 100" using percent_of_range by auto
    have "overall_risk_score res = Num (of_int (percent_of q))"
      using True o sk by (simp add: calculateRiskScore_def Let_def Math_round_percent q_def)
    also have "of_int (percent_of q) = (of_nat (nat (percent_of q)) :: rat)" using r by simp
    finally show ?thesis unfolding whole_percentage_iff using r
      by (intro exI[of _ "nat (percent_of q)"]) simp
  qed
qed

section \<open>The claims\<close>

text \<open>
  Claim C7. In the list of outcomes of a framework, take an outcome with status FAIL and
  severity low, and replace its severity by critical, every other outcome and every other
  field of the framework result unchanged. Both risk scores computed by
  \<^verbatim>\<open>calculateFrameworkRiskScore\<close> are numbers, and the second is not below the first.
\<close>

theorem C7_low_to_critical_never_decreases:
  assumes i: "i < length (rule_results fr)"
    and f: "status (rule_results fr ! i) = FAIL"
    and lo: "result_severity (rule_results fr ! i) = Some ''low''"
  shows "\<exists>a b. calculateFrameworkRiskScore fr = Num a
           \<and> calculateFrameworkRiskScore
                (fr\<lparr>rule_results := (rule_results fr)
                      [i := (rule_results fr ! i)\<lparr>result_severity := Some ''critical''\<rparr>]\<rparr>) = Num b
           \<and> a \<le> b"
proof -
  define xs where "xs = rule_results fr"
  define ys where "ys = xs[i := (xs ! i)\<lparr>result_severity := Some ''critical''\<rparr>]"
  note s = sums_after_update[OF i[folded xs_def] f[folded xs_def] lo[folded xs_def], folded ys_def]
  have le: "weighted_failures xs \<le> total_weight xs" by (rule weighted_failures_le)
  show ?thesis
  proof (cases "total_fr fr = skipped fr \<or> reads_inherited_member xs")
    case True
    then show ?thesis
      by (auto simp: calculateFrameworkRiskScore_closed s xs_def[symmetric] ys_def[symmetric])
  next
    case False
    have tpos: "0 < total_weight xs"
    proof -
      have x: "xs = take i xs @ (xs ! i) # drop (Suc i) xs"
        using i unfolding xs_def by (rule id_take_nth_drop)
      have fx: "status (xs ! i) = FAIL" "result_severity (xs ! i) = Some ''low''"
        using f lo by (simp_all add: xs_def)
      have "total_weight xs = total_weight (take i xs) + 1 + total_weight (drop (Suc i) xs)"
        by (subst x) (simp add: fx)
      then show ?thesis by simp
    qed
    have "percent_of (of_nat (weighted_failures xs) / of_nat (total_weight xs))
          \<le> percent_of (of_nat (weighted_failures xs + 3) / of_nat (total_weight xs + 3))"
      by (rule percent_of_mono) (rule ratio_grows[OF le tpos])
    then show ?thesis
      using False tpos
      by (simp add: calculateFrameworkRiskScore_closed s xs_def[symmetric] ys_def[symmetric])
  qed
qed

text \<open>
  At the outcomes FAIL/low, PASS/high the score is 25 (weight 1 of 4); with the first
  severity replaced by critical it is 57 (weight 4 of 7).
\<close>

theorem C7_witness:
  "\<exists>a b. calculateFrameworkRiskScore
            (example_result [example_outcome FAIL (Some ''low''), example_outcome PASS (Some ''high'')])
          = Num a
       \<and> calculateFrameworkRiskScore
            (example_result [example_outcome FAIL (Some ''critical''), example_outcome PASS (Some ''high'')])
          = Num b
       \<and> a \<le> b \<and> a = 25 \<and> b = 57"
proof -
  define fr where
    "fr = example_result [example_outcome FAIL (Some ''low''), example_outcome PASS (Some ''high'')]"
  have h1: "0 < length (rule_results fr)"
    by (simp add: fr_def example_result_def)
  have h2: "status (rule_results fr ! 0) = FAIL"
    by (simp add: fr_def example_result_def example_outcome_def)
  have h3: "result_severity (rule_results fr ! 0) = Some ''low''"
    by (simp add: fr_def example_result_def example_outcome_def)
  have upd: "fr\<lparr>rule_results := (rule_results fr)
                 [0 := (rule_results fr ! 0)\<lparr>result_severity := Some ''critical''\<rparr>]\<rparr>
             = example_result [example_outcome FAIL (Some ''critical''), example_outcome PASS (Some ''high'')]"
    by (simp add: fr_def example_result_def example_outcome_def)
  have v1: "calculateFrameworkRiskScore
              (example_result [example_outcome FAIL (Some ''low''), example_outcome PASS (Some ''high'')])
            = Num 25"
    by code_simp
  have v2: "calculateFrameworkRiskScore
              (example_result [example_outcome FAIL (Some ''critical''), example_outcome PASS (Some ''high'')])
            = Num 57"
    by code_simp
  from C7_low_to_critical_never_decreases[OF h1 h2 h3]
  obtain a b where ab: "calculateFrameworkRiskScore fr = Num a"
      "calculateFrameworkRiskScore
         (example_result [example_outcome FAIL (Some ''critical''), example_outcome PASS (Some ''high'')])
       = Num b" "a \<le> b"
    unfolding upd by blast
  have "a = 25" using ab(1) v1 by (simp add: fr_def)
  moreover have "b = 57" using ab(2) v2 by simp
  ultimately show ?thesis using ab unfolding fr_def by blast
qed

text \<open>
  Claim C4, where the code departs from it. With 23 rules that pass and 17 that fail the
  exact percentage is 57.5, which rounds half up to 58; the code computes
  \<^verbatim>\<open>Math.round((23 / 40) * 100)\<close> in double precision, where the product is
  57.49999999999999, and gives 57.
\<close>

theorem C4_counterexample:
  "(case snd (executeCompliance (mixed_engine 23 17) (Document ()) no_options) of
      Inl error \<Rightarrow> False
    | Inr res \<Rightarrow>
        map (\<lambda>entry. (passed (snd entry), total_fr (snd entry), skipped (snd entry),
                       compliance_percentage (snd entry)))
            (framework_results res) = [(23, 40, 0, Num 57)]
        \<and> list_all (\<lambda>entry. compliance_percentage (snd entry)
                               \<noteq> spec_percentage (passed (snd entry)) (total_fr (snd entry))
                                    (skipped (snd entry)))
             (framework_results res))
   \<and> spec_percentage 23 40 0 = Num 58"
  by code_simp

text \<open>
  Claim C4 as amended. Every framework result in an evaluation that \<^verbatim>\<open>executeCompliance\<close>
  returns, and every result of \<^verbatim>\<open>executeFrameworkRules\<close> (for fewer than \<open>2^44\<close> rules; an
  array holds fewer than \<open>2^32\<close>), has a \<open>compliance_percentage\<close> that is
  \<open>round(passed / (total - skipped) \<times> 100)\<close>, 0 when \<open>total - skipped\<close> is 0, except that when
  the exact percentage lies halfway between two whole numbers it is that rounded value or one
  less: it is \<^verbatim>\<open>Math.round((passed / (total - skipped)) * 100)\<close> with the quotient and the
  product rounded to doubles. Its \<open>compliance_percentage\<close> and its \<open>risk_score\<close> are whole
  numbers between 0 and 100.
\<close>

theorem C4_percentages_up_to_ties:
  "(executeCompliance eng inputData opts = (calls, Inr res) \<and> entry \<in> set (framework_results res)
      \<and> total_fr (snd entry) < 2 ^ 44
      \<longrightarrow> matches_up_to_ties (compliance_percentage (snd entry))
            (passed (snd entry)) (total_fr (snd entry)) (skipped (snd entry))
          \<and> compliance_percentage (snd entry) =
              (if int (total_fr (snd entry)) - int (skipped (snd entry)) = 0 then Num 0
               else Math_round (times_100 (js_divide (of_nat (passed (snd entry)))
                        (of_int (int (total_fr (snd entry)) - int (skipped (snd entry)))))))
          \<and> whole_percentage (compliance_percentage (snd entry))
          \<and> whole_percentage (risk_score (snd entry)))
   \<and> (executeFrameworkRules eng c rs inputData = (made, Inr fr) \<and> total_fr fr < 2 ^ 44
      \<longrightarrow> matches_up_to_ties (compliance_percentage fr) (passed fr) (total_fr fr) (skipped fr)
          \<and> compliance_percentage fr =
              (if int (total_fr fr) - int (skipped fr) = 0 then Num 0
               else Math_round (times_100 (js_divide (of_nat (passed fr))
                        (of_int (int (total_fr fr) - int (skipped fr))))))
          \<and> whole_percentage (compliance_percentage fr) \<and> whole_percentage (risk_score fr))"
proof -
  have one: "matches_up_to_ties (compliance_percentage fr') (passed fr') (total_fr fr') (skipped fr')
          \<and> compliance_percentage fr' =
              (if int (total_fr fr') - int (skipped fr') = 0 then Num 0
               else Math_round (times_100 (js_divide (of_nat (passed fr'))
                        (of_int (int (total_fr fr') - int (skipped fr'))))))
          \<and> whole_percentage (compliance_percentage fr') \<and> whole_percentage (risk_score fr')"
    if e: "executeFrameworkRules eng c' rs' inputData = (made', Inr fr')"
      and small: "total_fr fr' < 2 ^ 44" for c' rs' made' fr'
  proof -
    have "skipped fr' = 0" using e by (rule executeFrameworkRules_fields(6))
    then have "matches_up_to_ties (compliance_percentage fr') (passed fr') (total_fr fr') (skipped fr')"
      using compliance_up_to_ties[OF e small] by (simp add: matches_up_to_ties_def)
    then show ?thesis using framework_result_percentages[OF e] by blast
  qed
  have 1: "executeCompliance eng inputData opts = (calls, Inr res) \<and> entry \<in> set (framework_results res)
      \<and> total_fr (snd entry) < 2 ^ 44
      \<longrightarrow> matches_up_to_ties (compliance_percentage (snd entry))
            (passed (snd entry)) (total_fr (snd entry)) (skipped (snd entry))
          \<and> compliance_percentage (snd entry) =
              (if int (total_fr (snd entry)) - int (skipped (snd entry)) = 0 then Num 0
               else Math_round (times_100 (js_divide (of_nat (passed (snd entry)))
                        (of_int (int (total_fr (snd entry)) - int (skipped (snd entry)))))))
          \<and> whole_percentage (compliance_percentage (snd entry))
          \<and> whole_percentage (risk_score (snd entry))"
  proof
    assume a: "executeCompliance eng inputData opts = (calls, Inr res)
      \<and> entry \<in> set (framework_results res) \<and> total_fr (snd entry) < 2 ^ 44"
    then obtain rs' where
      "executeFrameworkRules eng (fst entry) rs' inputData = (map ruleKey rs', Inr (snd entry))"
      using entries_of_evaluation[of eng inputData opts calls res entry] by blast
    then show "matches_up_to_ties (compliance_percentage (snd entry))
            (passed (snd entry)) (total_fr (snd entry)) (skipped (snd entry))
          \<and> compliance_percentage (snd entry) =
              (if int (total_fr (snd entry)) - int (skipped (snd entry)) = 0 then Num 0
               else Math_round (times_100 (js_divide (of_nat (passed (snd entry)))
                        (of_int (int (total_fr (snd entry)) - int (skipped (snd entry)))))))
          \<and> whole_percentage (compliance_percentage (snd entry))
          \<and> whole_percentage (risk_score (snd entry))"
      using a by (intro one) simp_all
  qed
  have 2: "executeFrameworkRules eng c rs inputData = (made, Inr fr) \<and> total_fr fr < 2 ^ 44
      \<longrightarrow> matches_up_to_ties (compliance_percentage fr) (passed fr) (total_fr fr) (skipped fr)
          \<and> compliance_percentage fr =
              (if int (total_fr fr) - int (skipped fr) = 0 then Num 0
               else Math_round (times_100 (js_divide (of_nat (passed fr))
                        (of_int (int (total_fr fr) - int (skipped fr))))))
          \<and> whole_percentage (compliance_percentage fr) \<and> whole_percentage (risk_score fr)"
    using one[of c rs made fr] by blast
  show ?thesis using 1 2 by (rule conjI)
qed

text \<open>
  With 23 of 40 rules passing the exact percentage lies halfway and the compliance is 57,
  one less than 58. With the one rule of a framework passing it is 100, as the specification
  states; with no rule it is 0.
\<close>

theorem C4_witness:
  "\<exists>calls res entry made fr made0 fr0.
      executeCompliance (mixed_engine 23 17) (Document ()) no_options = (calls, Inr res)
    \<and> entry \<in> set (framework_results res)
    \<and> passed (snd entry) = 23 \<and> total_fr (snd entry) = 40 \<and> skipped (snd entry) = 0
    \<and> matches_up_to_ties (compliance_percentage (snd entry)) 23 40 0
    \<and> compliance_percentage (snd entry) = Num 57 \<and> spec_percentage 23 40 0 = Num 58
    \<and> whole_percentage (compliance_percentage (snd entry))
    \<and> whole_percentage (risk_score (snd entry))
    \<and> executeFrameworkRules scenario_engine ''B'' [example_rule ''B'' ''B1'' (Some ''low'') passes]
         (Document ()) = (made, Inr fr)
    \<and> matches_up_to_ties (compliance_percentage fr) 1 1 0
    \<and> compliance_percentage fr = Num 100 \<and> spec_percentage 1 1 0 = Num 100
    \<and> executeFrameworkRules scenario_engine ''B'' [] (Document ()) = (made0, Inr fr0)
    \<and> total_fr fr0 = 0 \<and> compliance_percentage fr0 = Num 0 \<and> whole_percentage (risk_score fr0)"
proof -
  obtain calls q where e: "executeCompliance (mixed_engine 23 17) (Document ()) no_options = (calls, q)"
    by (cases "executeCompliance (mixed_engine 23 17) (Document ()) no_options")
  have v: "(case snd (executeCompliance (mixed_engine 23 17) (Document ()) no_options) of
              Inl error \<Rightarrow> False
            | Inr res \<Rightarrow> (case framework_results res of
                 [] \<Rightarrow> False
               | entry # rest \<Rightarrow> passed (snd entry) = 23 \<and> total_fr (snd entry) = 40
                     \<and> skipped (snd entry) = 0 \<and> compliance_percentage (snd entry) = Num 57))"
    by code_simp
  then obtain res where q: "q = Inr res" using e by (cases q) simp_all
  from v e q obtain entry rest where fr: "framework_results res = entry # rest"
    and a: "passed (snd entry) = 23" "total_fr (snd entry) = 40" "skipped (snd entry) = 0"
      "compliance_percentage (snd entry) = Num 57"
    by (cases "framework_results res") simp_all
  have m: "entry \<in> set (framework_results res)" using fr by simp
  obtain made p where f: "executeFrameworkRules scenario_engine ''B''
       [example_rule ''B'' ''B1'' (Some ''low'') passes] (Document ()) = (made, p)"
    by (cases "executeFrameworkRules scenario_engine ''B''
       [example_rule ''B'' ''B1'' (Some ''low'') passes] (Document ())")
  have w: "(case snd (executeFrameworkRules scenario_engine ''B''
                 [example_rule ''B'' ''B1'' (Some ''low'') passes] (Document ())) of
              Inl error \<Rightarrow> False
            | Inr fr \<Rightarrow> passed fr = 1 \<and> total_fr fr = 1 \<and> skipped fr = 0
                 \<and> compliance_percentage fr = Num 100)"
    by code_simp
  then obtain fr1 where p: "p = Inr fr1" using f by (cases p) simp_all
  have b: "passed fr1 = 1" "total_fr fr1 = 1" "skipped fr1 = 0" "compliance_percentage fr1 = Num 100"
    using w f p by simp_all
  obtain made0 p0 where f0: "executeFrameworkRules scenario_engine ''B'' [] (Document ()) = (made0, p0)"
    by (cases "executeFrameworkRules scenario_engine ''B'' [] (Document ())")
  have w0: "(case snd (executeFrameworkRules scenario_engine ''B'' [] (Document ())) of
              Inl error \<Rightarrow> False
            | Inr fr \<Rightarrow> total_fr fr = 0 \<and> skipped fr = 0)"
    by code_simp
  then obtain fr0 where p0: "p0 = Inr fr0" using f0 by (cases p0) simp_all
  have c: "total_fr fr0 = 0" "skipped fr0 = 0" using w0 f0 p0 by simp_all
  have s: "spec_percentage 23 40 0 = Num 58" "spec_percentage 1 1 0 = Num 100" by code_simp+
  have h1: "executeCompliance (mixed_engine 23 17) (Document ()) no_options = (calls, Inr res)
            \<and> entry \<in> set (framework_results res) \<and> total_fr (snd entry) < 2 ^ 44"
    using e q m a(2) by simp
  have h2: "executeFrameworkRules scenario_engine ''B''
              [example_rule ''B'' ''B1'' (Some ''low'') passes] (Document ()) = (made, Inr fr1)
            \<and> total_fr fr1 < 2 ^ 44"
    using f p b(2) by simp
  have h3: "executeFrameworkRules scenario_engine ''B'' [] (Document ()) = (made0, Inr fr0)
            \<and> total_fr fr0 < 2 ^ 44"
    using f0 p0 c(1) by simp
  note t1 = mp[OF conjunct1[OF C4_percentages_up_to_ties[of "mixed_engine 23 17" "Document ()"
        no_options calls res entry "''B''" "[]" made0 fr0]] h1]
  note t2 = mp[OF conjunct2[OF C4_percentages_up_to_ties[of scenario_engine "Document ()"
        no_options calls res entry "''B''" "[example_rule ''B'' ''B1'' (Some ''low'') passes]"
        made fr1]] h2]
  note t3 = mp[OF conjunct2[OF C4_percentages_up_to_ties[of scenario_engine "Document ()"
        no_options calls res entry "''B''" "[]" made0 fr0]] h3]
  have "matches_up_to_ties (compliance_percentage (snd entry))
            (passed (snd entry)) (total_fr (snd entry)) (skipped (snd entry))"
    using t1 by blast
  then have r1: "matches_up_to_ties (compliance_percentage (snd entry)) 23 40 0"
    unfolding a(1-3) .
  have r1': "whole_percentage (compliance_percentage (snd entry))"
    "whole_percentage (risk_score (snd entry))"
    using t1 by blast+
  have "matches_up_to_ties (compliance_percentage fr1) (passed fr1) (total_fr fr1) (skipped fr1)"
    using t2 by blast
  then have r2: "matches_up_to_ties (compliance_percentage fr1) 1 1 0"
    unfolding b(1-3) .
  have "compliance_percentage fr0 =
              (if int (total_fr fr0) - int (skipped fr0) = 0 then Num 0
               else Math_round (times_100 (js_divide (of_nat (passed fr0))
                        (of_int (int (total_fr fr0) - int (skipped fr0))))))"
    using t3 by blast
  then have r3: "compliance_percentage fr0 = Num 0" using c by simp
  have r4: "whole_percentage (risk_score fr0)" using t3 by blast
  show ?thesis
    using h1 a r1 r1' s h2 r2 b(4) h3 c(1) r3 r4
    by (intro exI[of _ calls] exI[of _ res] exI[of _ entry] exI[of _ made] exI[of _ fr1]
          exI[of _ made0] exI[of _ fr0]) simp
qed

text \<open>
  Claim C5, where the code departs from it. With 23 rules that fail and 17 that pass the
  exact percentage is 57.5, which rounds half up to 58; the code computes
  \<^verbatim>\<open>Math.round((23 / 40) * 100)\<close> in double precision and gives 57.
\<close>

theorem C5_counterexample:
  "(case snd (executeCompliance (mixed_engine 17 23) (Document ()) no_options) of
      Inl error \<Rightarrow> False
    | Inr res \<Rightarrow>
        failed_rules res = 23 \<and> total_rules res = 40 \<and> skipped_rules res = 0
        \<and> overall_risk_score res = Num 57
        \<and> overall_risk_score res
            \<noteq> spec_percentage (failed_rules res) (total_rules res) (skipped_rules res))
   \<and> spec_percentage 23 40 0 = Num 58"
  by code_simp

text \<open>
  Claim C5 as amended. In every evaluation that \<^verbatim>\<open>executeCompliance\<close> returns (for fewer
  than \<open>2^44\<close> rules; an array holds fewer than \<open>2^32\<close>), \<open>overall_risk_score\<close> is
  \<open>round(failed_rules / (total_rules - skipped_rules) \<times> 100)\<close>, computed from the counts
  alone (no severity enters), and 0 when \<open>total_rules\<close> is 0 or the denominator is 0, except
  that when the exact percentage lies halfway between two whole numbers it is that rounded
  value or one less: it is \<^verbatim>\<open>Math.round((failed_rules / (total_rules - skipped_rules)) * 100)\<close>
  with the quotient and the product rounded to doubles. It is a whole number between 0 and
  100.
\<close>

theorem C5_overall_risk_score_up_to_ties:
  assumes "executeCompliance eng inputData opts = (calls, Inr res)"
    and "total_rules res < 2 ^ 44"
  shows "matches_up_to_ties (overall_risk_score res)
           (failed_rules res) (total_rules res) (skipped_rules res)
       \<and> overall_risk_score res =
           (if total_rules res = 0 \<or> int (total_rules res) - int (skipped_rules res) = 0 then Num 0
            else Math_round (times_100 (js_divide (of_nat (failed_rules res))
                     (of_int (int (total_rules res) - int (skipped_rules res))))))
       \<and> whole_percentage (overall_risk_score res)"
proof -
  from evaluation_outcomes[OF assms(1)] have sk: "skipped_rules res = 0" by blast
  have 1: "matches_up_to_ties (overall_risk_score res)
           (failed_rules res) (total_rules res) (skipped_rules res)"
    using overall_up_to_ties[OF assms] sk by (simp add: matches_up_to_ties_def)
  from executeCompliance_structure[OF assms(1)]
  have "overall_risk_score res = calculateRiskScore res" by blast
  then have 2: "overall_risk_score res =
           (if total_rules res = 0 \<or> int (total_rules res) - int (skipped_rules res) = 0 then Num 0
            else Math_round (times_100 (js_divide (of_nat (failed_rules res))
                     (of_int (int (total_rules res) - int (skipped_rules res))))))"
    by (simp add: calculateRiskScore_def Let_def)
  show ?thesis using 1 2 overall_whole_percentage[OF assms(1)] by (intro conjI)
qed

text \<open>
  With 23 of 40 rules failing the exact percentage lies halfway and the score is 57, one
  less than 58. In the scenario of the specification (one critical rule fails, one low rule
  passes) it is 50 as the specification states, not the weighted 80.
\<close>

theorem C5_witness:
  "\<exists>calls res calls' res'.
      executeCompliance (mixed_engine 17 23) (Document ()) no_options = (calls, Inr res)
    \<and> failed_rules res = 23 \<and> total_rules res = 40 \<and> skipped_rules res = 0
    \<and> matches_up_to_ties (overall_risk_score res) 23 40 0
    \<and> overall_risk_score res = Num 57 \<and> spec_percentage 23 40 0 = Num 58
    \<and> whole_percentage (overall_risk_score res)
    \<and> executeCompliance scenario_engine (Document ()) no_options = (calls', Inr res')
    \<and> failed_rules res' = 1 \<and> total_rules res' = 2 \<and> skipped_rules res' = 0
    \<and> matches_up_to_ties (overall_risk_score res') 1 2 0
    \<and> overall_risk_score res' = Num 50 \<and> spec_percentage 1 2 0 = Num 50"
proof -
  obtain calls q where e: "executeCompliance (mixed_engine 17 23) (Document ()) no_options = (calls, q)"
    by (cases "executeCompliance (mixed_engine 17 23) (Document ()) no_options")
  have v: "(case snd (executeCompliance (mixed_engine 17 23) (Document ()) no_options) of
              Inl error \<Rightarrow> False
            | Inr res \<Rightarrow> failed_rules res = 23 \<and> total_rules res = 40 \<and> skipped_rules res = 0
                 \<and> overall_risk_score res = Num 57)"
    by code_simp
  then obtain res where q: "q = Inr res" using e by (cases q) simp_all
  have a: "failed_rules res = 23" "total_rules res = 40" "skipped_rules res = 0"
    "overall_risk_score res = Num 57"
    using v e q by simp_all
  obtain calls' q' where e': "executeCompliance scenario_engine (Document ()) no_options = (calls', q')"
    by (cases "executeCompliance scenario_engine (Document ()) no_options")
  have v': "(case snd (executeCompliance scenario_engine (Document ()) no_options) of
              Inl error \<Rightarrow> False
            | Inr res \<Rightarrow> failed_rules res = 1 \<and> total_rules res = 2 \<and> skipped_rules res = 0
                 \<and> overall_risk_score res = Num 50)"
    by code_simp
  then obtain res' where q': "q' = Inr res'" using e' by (cases q') simp_all
  have b: "failed_rules res' = 1" "total_rules res' = 2" "skipped_rules res' = 0"
    "overall_risk_score res' = Num 50"
    using v' e' q' by simp_all
  have s: "spec_percentage 23 40 0 = Num 58" "spec_percentage 1 2 0 = Num 50" by code_simp+
  have h: "executeCompliance (mixed_engine 17 23) (Document ()) no_options = (calls, Inr res)"
    using e q by simp
  have h': "executeCompliance scenario_engine (Document ()) no_options = (calls', Inr res')"
    using e' q' by simp
  have k: "total_rules res < 2 ^ 44" "total_rules res' < 2 ^ 44" using a(2) b(2) by simp_all
  note t = C5_overall_risk_score_up_to_ties[OF h k(1)]
  note t' = C5_overall_risk_score_up_to_ties[OF h' k(2)]
  have "matches_up_to_ties (overall_risk_score res)
           (failed_rules res) (total_rules res) (skipped_rules res)"
    using t by blast
  then have r: "matches_up_to_ties (overall_risk_score res) 23 40 0" unfolding a(1-3) .
  have r2: "whole_percentage (overall_risk_score res)" using t by blast
  have "matches_up_to_ties (overall_risk_score res')
           (failed_rules res') (total_rules res') (skipped_rules res')"
    using t' by blast
  then have r': "matches_up_to_ties (overall_risk_score res') 1 2 0" unfolding b(1-3) .
  show ?thesis
    using h a r r2 s h' b r'
    by (intro exI[of _ calls] exI[of _ res] exI[of _ calls'] exI[of _ res']) simp
qed

text \<open>
  Claim C9. An outcome that \<^verbatim>\<open>executeRule\<close> returns has the status PASS when the predicate
  resolved with a truthy \<open>passed\<close>, FAIL when it resolved with a falsy one, ERROR when it
  rejected, and never SKIP; it returns an outcome unless the predicate rejected with
  \<^verbatim>\<open>null\<close> or \<^verbatim>\<open>undefined\<close>, and then the loop of \<^verbatim>\<open>executeFrameworkRules\<close> records
  an ERROR outcome. So every framework result has \<open>skipped = 0\<close> and no SKIP outcome, and
  every evaluation has \<open>skipped_rules = 0\<close>.
\<close>

theorem C9_never_skip:
  "(executeRule r inputData = Inr out
      \<longrightarrow> status out = status_of (evaluate r inputData) \<and> status out \<noteq> SKIP)
   \<and> ((\<exists>out. executeRule r inputData = Inr out) \<longleftrightarrow> evaluate r inputData \<noteq> Rejects Nullish)
   \<and> (executeFrameworkRules eng c rs inputData = (made, Inr fr)
      \<longrightarrow> skipped fr = 0
          \<and> map status (rule_results fr) = map (\<lambda>r. status_of (evaluate r inputData)) rs
          \<and> list_all (\<lambda>out. status out \<noteq> SKIP) (rule_results fr))
   \<and> (executeCompliance eng inputData opts = (calls, Inr res)
      \<longrightarrow> skipped_rules res = 0
          \<and> list_all (\<lambda>entry. skipped (snd entry) = 0) (framework_results res)
          \<and> list_all (\<lambda>out. status out \<noteq> SKIP) (detailed_results res))"
proof -
  have 1: "executeRule r inputData = Inr out
      \<longrightarrow> status out = status_of (evaluate r inputData) \<and> status out \<noteq> SKIP"
    using executeRule_status[of r inputData out] status_of_not_SKIP[of "evaluate r inputData"]
    by auto
  have 2: "(\<exists>out. executeRule r inputData = Inr out) \<longleftrightarrow> evaluate r inputData \<noteq> Rejects Nullish"
    using executeRule_throws_iff[of inputData r]
    by (cases "executeRule r inputData") (auto simp: executeRule_throws_def)
  have 3: "executeFrameworkRules eng c rs inputData = (made, Inr fr)
      \<longrightarrow> skipped fr = 0
          \<and> map status (rule_results fr) = map (\<lambda>r. status_of (evaluate r inputData)) rs
          \<and> list_all (\<lambda>out. status out \<noteq> SKIP) (rule_results fr)"
  proof
    assume a: "executeFrameworkRules eng c rs inputData = (made, Inr fr)"
    note f = executeFrameworkRules_fields[OF a]
    show "skipped fr = 0
          \<and> map status (rule_results fr) = map (\<lambda>r. status_of (evaluate r inputData)) rs
          \<and> list_all (\<lambda>out. status out \<noteq> SKIP) (rule_results fr)"
      unfolding f(2) using f(6)
      by (simp add: outcome_of_status status_of_not_SKIP list_all_iff comp_def)
  qed
  have 4: "executeCompliance eng inputData opts = (calls, Inr res)
      \<longrightarrow> skipped_rules res = 0
          \<and> list_all (\<lambda>entry. skipped (snd entry) = 0) (framework_results res)
          \<and> list_all (\<lambda>out. status out \<noteq> SKIP) (detailed_results res)"
  proof
    assume a: "executeCompliance eng inputData opts = (calls, Inr res)"
    from executeCompliance_structure[OF a] obtain groups where
      s: "skipped_rules res = 0"
      and d: "detailed_results res = map (outcome_of inputData) (concat (map snd (Object_entries groups)))"
      by blast
    have "skipped (snd entry) = 0" if "entry \<in> set (framework_results res)" for entry
    proof -
      from entries_of_evaluation[OF a that] obtain rs' where
        "executeFrameworkRules eng (fst entry) rs' inputData = (map ruleKey rs', Inr (snd entry))"
        by blast
      then show ?thesis by (rule executeFrameworkRules_fields(6))
    qed
    then have "list_all (\<lambda>entry. skipped (snd entry) = 0) (framework_results res)"
      by (simp add: list_all_iff)
    moreover have "list_all (\<lambda>out. status out \<noteq> SKIP) (detailed_results res)"
      unfolding d by (simp add: list_all_iff outcome_of_status status_of_not_SKIP)
    ultimately show "skipped_rules res = 0
          \<and> list_all (\<lambda>entry. skipped (snd entry) = 0) (framework_results res)
          \<and> list_all (\<lambda>out. status out \<noteq> SKIP) (detailed_results res)"
      using s by simp
  qed
  show ?thesis using 1 2 3 4 by blast
qed

text \<open>
  With one predicate that rejects with an error and one that passes, the statuses are
  ERROR and PASS and nothing is skipped.
\<close>

theorem C9_witness:
  "\<exists>calls res out.
      executeCompliance boom_engine (Document ()) no_options = (calls, Inr res)
    \<and> skipped_rules res = 0
    \<and> list_all (\<lambda>entry. skipped (snd entry) = 0) (framework_results res)
    \<and> list_all (\<lambda>out. status out \<noteq> SKIP) (detailed_results res)
    \<and> map status (detailed_results res) = [ERROR, PASS]
    \<and> executeRule (example_rule ''A'' ''R1'' (Some ''critical'') (Rejects (Error_object ''boom'')))
         (Document ()) = Inr out
    \<and> status out = ERROR"
proof -
  obtain calls q where e: "executeCompliance boom_engine (Document ()) no_options = (calls, q)"
    by (cases "executeCompliance boom_engine (Document ()) no_options")
  have v: "(case snd (executeCompliance boom_engine (Document ()) no_options) of
              Inl error \<Rightarrow> False
            | Inr res \<Rightarrow> map status (detailed_results res) = [ERROR, PASS])"
    by code_simp
  then obtain res where q: "q = Inr res" using e by (cases q) simp_all
  have st: "map status (detailed_results res) = [ERROR, PASS]" using v e q by simp
  have w: "(case executeRule (example_rule ''A'' ''R1'' (Some ''critical'') (Rejects (Error_object ''boom'')))
                  (Document ()) of
              Inl error \<Rightarrow> False | Inr out \<Rightarrow> True)"
    by code_simp
  then obtain out where o: "executeRule (example_rule ''A'' ''R1'' (Some ''critical'')
                              (Rejects (Error_object ''boom''))) (Document ()) = Inr out"
    by (cases "executeRule (example_rule ''A'' ''R1'' (Some ''critical'')
                              (Rejects (Error_object ''boom''))) (Document ())") simp_all
  note t = C9_never_skip[of "example_rule ''A'' ''R1'' (Some ''critical'') (Rejects (Error_object ''boom''))"
      "Document ()" out boom_engine "''A''" "[]" "[]" undefined no_options calls res]
  have h: "executeCompliance boom_engine (Document ()) no_options = (calls, Inr res)"
    using e q by simp
  have a: "skipped_rules res = 0
          \<and> list_all (\<lambda>entry. skipped (snd entry) = 0) (framework_results res)
          \<and> list_all (\<lambda>out. status out \<noteq> SKIP) (detailed_results res)"
    using t h by blast
  have "status out = status_of (evaluate (example_rule ''A'' ''R1'' (Some ''critical'')
                        (Rejects (Error_object ''boom''))) (Document ()))"
    using t o by blast
  then have b: "status out = ERROR" by (simp add: example_rule_def status_of_def)
  show ?thesis using h a st o b
    by (intro exI[of _ calls] exI[of _ res] exI[of _ out]) simp
qed

text \<open>
  Claim C10. For the snapshot \<^verbatim>\<open>null\<close> or \<^verbatim>\<open>undefined\<close>, \<^verbatim>\<open>executeCompliance\<close> throws
  the TypeError of \<^verbatim>\<open>Object.keys(inputData)\<close>, raised in \<^verbatim>\<open>summarizeInputData\<close> while the
  result object is built: no predicate has been called and no evaluation is returned. The
  same holds for a value whose serialisation fails, with the TypeError raised there; so an
  evaluation is returned for documents only. For a document, whatever sections it has or
  lacks, the summary is computed, and in an evaluation that is returned every selected rule
  was called once, on that very document: the outcomes are, in the order of the calls, what
  the predicates answer on it. Such an evaluation is returned for every registry built by
  the registration methods whose selected rules have framework codes that name no member
  of \<^verbatim>\<open>Object.prototype\<close>.
\<close>

theorem C10_null_snapshot_throws_first:
  "executeCompliance eng Null opts
     = ([], Inl (TypeError ''Cannot convert undefined or null to object''))
   \<and> executeCompliance eng Undefined opts
     = ([], Inl (TypeError ''Cannot convert undefined or null to object''))
   \<and> executeCompliance eng (Unserializable m d) opts = ([], Inl (TypeError m))
   \<and> (executeCompliance eng inputData opts = (calls, Inr res)
        \<longrightarrow> (\<exists>d' order.
               inputData = Document d'
             \<and> summarizeInputData inputData = Inr (Summary_of d')
             \<and> mset order
                 = mset (filterRules eng (opt_frameworks opts) (opt_categories opts) (opt_severity opts))
             \<and> calls = map ruleKey order
             \<and> list_all2 (outcome_reflects (Document d')) order (detailed_results res)))
   \<and> (catalog_invariant eng
       \<and> list_all (\<lambda>r. framework r \<notin> set object_prototype_keys)
           (filterRules eng (opt_frameworks opts) (opt_categories opts) (opt_severity opts))
        \<longrightarrow> (\<exists>calls res. executeCompliance eng (Document d) opts = (calls, Inr res)))"
proof -
  have 4: "executeCompliance eng inputData opts = (calls, Inr res)
        \<longrightarrow> (\<exists>d' order.
               inputData = Document d'
             \<and> summarizeInputData inputData = Inr (Summary_of d')
             \<and> mset order
                 = mset (filterRules eng (opt_frameworks opts) (opt_categories opts) (opt_severity opts))
             \<and> calls = map ruleKey order
             \<and> list_all2 (outcome_reflects (Document d')) order (detailed_results res))"
  proof
    assume e: "executeCompliance eng inputData opts = (calls, Inr res)"
    from executeCompliance_Inr[OF e] obtain d' where d': "inputData = Document d'" by blast
    from evaluation_outcomes[OF e] obtain order where
      o: "mset order
            = mset (filterRules eng (opt_frameworks opts) (opt_categories opts) (opt_severity opts))"
         "calls = map ruleKey order"
         "list_all2 (outcome_reflects inputData) order (detailed_results res)"
      by blast
    have s: "summarizeInputData inputData = Inr (Summary_of d')"
      by (simp add: d' summarizeInputData_def)
    show "\<exists>d' order.
               inputData = Document d'
             \<and> summarizeInputData inputData = Inr (Summary_of d')
             \<and> mset order
                 = mset (filterRules eng (opt_frameworks opts) (opt_categories opts) (opt_severity opts))
             \<and> calls = map ruleKey order
             \<and> list_all2 (outcome_reflects (Document d')) order (detailed_results res)"
      using d' s o by (intro exI[of _ d'] exI[of _ order]) simp
  qed
  have 5: "catalog_invariant eng
       \<and> list_all (\<lambda>r. framework r \<notin> set object_prototype_keys)
           (filterRules eng (opt_frameworks opts) (opt_categories opts) (opt_severity opts))
        \<longrightarrow> (\<exists>calls res. executeCompliance eng (Document d) opts = (calls, Inr res))"
    using executeCompliance_returns[of eng opts d] by blast
  show ?thesis
    using executeCompliance_nullish[of eng opts] executeCompliance_unserializable[of eng m d opts] 4 5
    by (intro conjI)
qed

text \<open>
  With the access-control rule of the repository: on \<^verbatim>\<open>null\<close> the call throws and the
  predicate is not called; on a document without the section \<^verbatim>\<open>security_config\<close> the
  predicate is called with it and its answer, FAIL with its message, is the outcome; on a
  document with a user it is PASS.
\<close>

theorem C10_witness:
  "executeCompliance access_engine Null no_options
     = ([], Inl (TypeError ''Cannot convert undefined or null to object''))
   \<and> (\<exists>res. executeCompliance access_engine (Document None) no_options
               = ([''ISO27001:ISO-A.9.1.1''], Inr res)
         \<and> map status (detailed_results res) = [FAIL]
         \<and> map message (detailed_results res) = [''No user access information available'']
         \<and> list_all2 (outcome_reflects (Document None))
              (filterRules access_engine None None None) (detailed_results res))
   \<and> (\<exists>res. executeCompliance access_engine (Document (Some [''root''])) no_options
               = ([''ISO27001:ISO-A.9.1.1''], Inr res)
         \<and> map status (detailed_results res) = [PASS])"
proof -
  note t = C10_null_snapshot_throws_first[of access_engine no_options undefined None]
  have 1: "executeCompliance access_engine Null no_options
     = ([], Inl (TypeError ''Cannot convert undefined or null to object''))"
    using t[of Null "[]" undefined] by blast
  have sel: "filterRules access_engine (opt_frameworks no_options) (opt_categories no_options)
                 (opt_severity no_options) = filterRules access_engine None None None"
    by (simp add: no_options_def)
  have one: "length (filterRules access_engine None None None) = 1" by code_simp
  then obtain r where r: "filterRules access_engine None None None = [r]"
    by (cases "filterRules access_engine None None None") simp_all
  obtain calls q where e: "executeCompliance access_engine (Document None) no_options = (calls, q)"
    by (cases "executeCompliance access_engine (Document None) no_options")
  have v: "(case executeCompliance access_engine (Document None) no_options of
              (calls, Inl error) \<Rightarrow> False
            | (calls, Inr res) \<Rightarrow> calls = [''ISO27001:ISO-A.9.1.1'']
                \<and> map status (detailed_results res) = [FAIL]
                \<and> map message (detailed_results res) = [''No user access information available''])"
    by code_simp
  then obtain res where q: "q = Inr res" using e by (cases q) simp_all
  have a: "calls = [''ISO27001:ISO-A.9.1.1'']" "map status (detailed_results res) = [FAIL]"
    "map message (detailed_results res) = [''No user access information available'']"
    using v e q by simp_all
  have h: "executeCompliance access_engine (Document None) no_options = (calls, Inr res)"
    using e q by simp
  have "\<exists>d' order. Document None = Document d'
             \<and> summarizeInputData (Document None :: string list option snapshot) = Inr (Summary_of d')
             \<and> mset order
                 = mset (filterRules access_engine (opt_frameworks no_options)
                           (opt_categories no_options) (opt_severity no_options))
             \<and> calls = map ruleKey order
             \<and> list_all2 (outcome_reflects (Document d')) order (detailed_results res)"
    using mp[OF conjunct1[OF conjunct2[OF conjunct2[OF conjunct2[OF t[of "Document None" calls res]]]]] h] .
  then obtain order where
    o: "mset order = mset (filterRules access_engine (opt_frameworks no_options)
                           (opt_categories no_options) (opt_severity no_options))"
       "list_all2 (outcome_reflects (Document None)) order (detailed_results res)"
    by auto
  have "mset order = {#r#}" using o(1) unfolding sel r by simp
  then have "order = [r]" by (simp add: mset_single_iff_right)
  then have l: "list_all2 (outcome_reflects (Document None))
              (filterRules access_engine None None None) (detailed_results res)"
    using o(2) r by simp
  have 2: "\<exists>res. executeCompliance access_engine (Document None) no_options
               = ([''ISO27001:ISO-A.9.1.1''], Inr res)
         \<and> map status (detailed_results res) = [FAIL]
         \<and> map message (detailed_results res) = [''No user access information available'']
         \<and> list_all2 (outcome_reflects (Document None))
              (filterRules access_engine None None None) (detailed_results res)"
    using h a l by (intro exI[of _ res]) simp
  have v': "(case executeCompliance access_engine (Document (Some [''root''])) no_options of
              (calls, Inl error) \<Rightarrow> False
            | (calls, Inr res) \<Rightarrow> calls = [''ISO27001:ISO-A.9.1.1'']
                \<and> map status (detailed_results res) = [PASS])"
    by code_simp
  have 3: "\<exists>res. executeCompliance access_engine (Document (Some [''root''])) no_options
               = ([''ISO27001:ISO-A.9.1.1''], Inr res)
         \<and> map status (detailed_results res) = [PASS]"
    using v' by (auto split: prod.splits sum.splits)
  show ?thesis using 1 2 3 by (intro conjI)
qed

text \<open>
  Claim C2. Let the registry be built by the registration methods. Whenever
  \<^verbatim>\<open>executeCompliance\<close> has called a predicate, it returns an evaluation, whatever the
  predicates did: every selected rule was called exactly once, and the list of all outcomes
  has, in the order of the calls, exactly one outcome per selected rule, with the code of
  the rule and: for a predicate that rejected, the status ERROR and the message
  "Rule evaluation error: " followed by the \<^verbatim>\<open>message\<close> property of the thrown value
  ("undefined" when the value has none; the message is not stated for a predicate that
  throws \<^verbatim>\<open>null\<close> or \<^verbatim>\<open>undefined\<close>); for a predicate that resolved, the status PASS or FAIL
  and the message of its evaluation. For a snapshot that is a document and selected rules
  whose framework codes name no member of \<^verbatim>\<open>Object.prototype\<close>, the evaluation is returned.
\<close>

theorem C2_rejections_are_isolated:
  assumes "catalog_invariant eng"
  shows "(executeCompliance eng inputData opts = (calls, out) \<and> calls \<noteq> []
          \<longrightarrow> (\<exists>res order.
                 out = Inr res
               \<and> mset order
                   = mset (filterRules eng (opt_frameworks opts) (opt_categories opts) (opt_severity opts))
               \<and> calls = map ruleKey order
               \<and> total_rules res = length order
               \<and> list_all2 (outcome_reflects inputData) order (detailed_results res)))
       \<and> (list_all (\<lambda>r. framework r \<notin> set object_prototype_keys)
            (filterRules eng (opt_frameworks opts) (opt_categories opts) (opt_severity opts))
          \<longrightarrow> (\<exists>calls res. executeCompliance eng (Document d) opts = (calls, Inr res)))"
proof (rule conjI; rule impI)
  assume a: "executeCompliance eng inputData opts = (calls, out) \<and> calls \<noteq> []"
  from executeCompliance_called[OF assms conjunct1[OF a] conjunct2[OF a]]
  obtain res where out: "out = Inr res" by blast
  have e: "executeCompliance eng inputData opts = (calls, Inr res)" using a out by simp
  from evaluation_outcomes[OF e] obtain order where
    "mset order
       = mset (filterRules eng (opt_frameworks opts) (opt_categories opts) (opt_severity opts))"
    "calls = map ruleKey order" "total_rules res = length order"
    "list_all2 (outcome_reflects inputData) order (detailed_results res)"
    by blast
  then show "\<exists>res order.
                 out = Inr res
               \<and> mset order
                   = mset (filterRules eng (opt_frameworks opts) (opt_categories opts) (opt_severity opts))
               \<and> calls = map ruleKey order
               \<and> total_rules res = length order
               \<and> list_all2 (outcome_reflects inputData) order (detailed_results res)"
    using out by (intro exI[of _ res] exI[of _ order]) simp
next
  assume "list_all (\<lambda>r. framework r \<notin> set object_prototype_keys)
            (filterRules eng (opt_frameworks opts) (opt_categories opts) (opt_severity opts))"
  from executeCompliance_returns[OF assms this, of d]
  show "\<exists>calls res. executeCompliance eng (Document d) opts = (calls, Inr res)" .
qed

text \<open>
  With a first predicate that rejects with \<^verbatim>\<open>new Error('boom')\<close> and a second that passes,
  both are called, the evaluation is returned, and the outcomes are ERROR with the message
  of the error, and PASS.
\<close>

theorem C2_witness:
  "\<exists>res. executeCompliance boom_engine (Document ()) no_options = ([''A:R1'', ''A:R2''], Inr res)
     \<and> total_rules res = 2
     \<and> map rule_code (detailed_results res) = [''R1'', ''R2'']
     \<and> map status (detailed_results res) = [ERROR, PASS]
     \<and> map message (detailed_results res) = [''Rule evaluation error: boom'', ''compliant'']"
proof -
  have inv: "catalog_invariant boom_engine" by code_simp
  obtain calls out where
    e: "executeCompliance boom_engine (Document ()) no_options = (calls, out)"
    by (cases "executeCompliance boom_engine (Document ()) no_options")
  have c: "fst (executeCompliance boom_engine (Document ()) no_options) = [''A:R1'', ''A:R2'']"
    by code_simp
  then have calls: "calls = [''A:R1'', ''A:R2'']" using e by simp
  then have ne: "calls \<noteq> []" by simp
  from mp[OF conjunct1[OF C2_rejections_are_isolated[OF inv, of "Document ()" no_options calls out]]
         conjI[OF e ne]]
  obtain res and order :: "unit rule list" where out: "out = Inr res"
    and t: "total_rules res = length order" and cs: "calls = map ruleKey order"
    by (elim exE conjE) (rule that; assumption)
  have "length calls = 2" using calls by simp
  then have n: "total_rules res = 2" using t cs by simp
  have v: "(case snd (executeCompliance boom_engine (Document ()) no_options) of
              Inl error \<Rightarrow> True
            | Inr res \<Rightarrow> map rule_code (detailed_results res) = [''R1'', ''R2'']
                \<and> map status (detailed_results res) = [ERROR, PASS]
                \<and> map message (detailed_results res) = [''Rule evaluation error: boom'', ''compliant''])"
    by code_simp
  show ?thesis using v e out calls n by (intro exI[of _ res]) simp
qed

text \<open>
  Claim C8. \<^verbatim>\<open>registerRule(rule)\<close> throws the error "Framework ... not registered" if and
  only if \<open>rule.framework\<close> is not a key of the registered frameworks at the call, and then
  the registry is as before. Otherwise it throws nothing, the frameworks are as before, the
  rule is the value of the key \<open>framework:code\<close>, every other key keeps its value, and the
  number of rules is unchanged when the key was present (replaced) and one more when it was
  not (inserted).
\<close>

theorem C8_registerRule:
  "(snd (registerRule eng r) = Some (Error (''Framework '' @ framework r @ '' not registered''))
      \<longleftrightarrow> framework r \<notin> fst ` set (frameworks eng))
   \<and> (snd (registerRule eng r) = None \<longleftrightarrow> framework r \<in> fst ` set (frameworks eng))
   \<and> (framework r \<notin> fst ` set (frameworks eng) \<longrightarrow> fst (registerRule eng r) = eng)
   \<and> (framework r \<in> fst ` set (frameworks eng)
      \<longrightarrow> frameworks (fst (registerRule eng r)) = frameworks eng
          \<and> map_of (rules (fst (registerRule eng r))) (framework r @ '':'' @ code r) = Some r
          \<and> (\<forall>k. k \<noteq> framework r @ '':'' @ code r
                \<longrightarrow> map_of (rules (fst (registerRule eng r))) k = map_of (rules eng) k)
          \<and> length (rules (fst (registerRule eng r)))
              = (if framework r @ '':'' @ code r \<in> fst ` set (rules eng)
                 then length (rules eng) else Suc (length (rules eng))))"
proof (cases "framework r \<in> fst ` set (frameworks eng)")
  case True
  then have "map_of (frameworks eng) (framework r) \<noteq> None"
    by (simp add: map_of_eq_None_iff)
  then have reg: "registerRule eng r
                  = (eng\<lparr>rules := AList.update (framework r @ '':'' @ code r) r (rules eng)\<rparr>, None)"
    by (simp add: registerRule_def ruleKey_def)
  show ?thesis
    using True unfolding reg
    by (simp add: map_of_update_same map_of_update_other length_update)
next
  case False
  then have "map_of (frameworks eng) (framework r) = None"
    by (simp add: map_of_eq_None_iff)
  then have reg: "registerRule eng r
                  = (eng, Some (Error (''Framework '' @ framework r @ '' not registered'')))"
    by (simp add: registerRule_def)
  show ?thesis using False unfolding reg by simp
qed

text \<open>
  With framework A registered: a rule of A is inserted under \<open>A:R1\<close>; a rule of the
  unregistered Z is refused and the registry stays as it was.
\<close>

theorem C8_witness:
  "snd (registerRule (registerFramework new_engine (example_framework ''A''))
          (example_rule ''Z'' ''R9'' (Some ''low'') passes))
     = Some (Error ''Framework Z not registered'')
   \<and> fst (registerRule (registerFramework new_engine (example_framework ''A''))
          (example_rule ''Z'' ''R9'' (Some ''low'') passes))
     = (registerFramework new_engine (example_framework ''A'') :: unit engine)
   \<and> snd (registerRule (registerFramework new_engine (example_framework ''A''))
          (example_rule ''A'' ''R1'' (Some ''low'') passes)) = None
   \<and> map fst (rules (fst (registerRule (registerFramework new_engine (example_framework ''A''))
          (example_rule ''A'' ''R1'' (Some ''low'') passes)))) = [''A:R1'']
   \<and> length (rules (fst (registerRule (registerFramework new_engine (example_framework ''A''))
          (example_rule ''A'' ''R1'' (Some ''low'') passes)))) = 1"
proof -
  define eng :: "unit engine" where "eng = registerFramework new_engine (example_framework ''A'')"
  define rz where "rz = example_rule ''Z'' ''R9'' (Some ''low'') passes"
  define ra where "ra = example_rule ''A'' ''R1'' (Some ''low'') passes"
  have fz: "framework rz \<notin> fst ` set (frameworks eng)"
    by (simp add: rz_def eng_def example_rule_def registerFramework_def new_engine_def
          example_framework_def)
  have fa: "framework ra \<in> fst ` set (frameworks eng)"
    by (simp add: ra_def eng_def example_rule_def registerFramework_def new_engine_def
          example_framework_def)
  have nz: "''Framework '' @ framework rz @ '' not registered'' = ''Framework Z not registered''"
    by (simp add: rz_def example_rule_def)
  have ka: "framework ra @ '':'' @ code ra \<notin> fst ` set (rules eng)"
    by (simp add: eng_def registerFramework_def new_engine_def)
  note tz = C8_registerRule[of eng rz]
  note ta = C8_registerRule[of eng ra]
  have 1: "snd (registerRule eng rz) = Some (Error ''Framework Z not registered'')"
    using tz fz nz by simp
  have 2: "fst (registerRule eng rz) = eng" using tz fz by blast
  have 3: "snd (registerRule eng ra) = None" using ta fa by blast
  have "length (rules (fst (registerRule eng ra)))
              = (if framework ra @ '':'' @ code ra \<in> fst ` set (rules eng)
                 then length (rules eng) else Suc (length (rules eng)))"
    using ta fa by blast
  then have 5: "length (rules (fst (registerRule eng ra))) = 1"
    using ka by (simp add: eng_def registerFramework_def new_engine_def)
  have 4: "map fst (rules (fst (registerRule eng ra))) = [''A:R1'']"
    unfolding eng_def ra_def by code_simp
  show ?thesis using 1 2 3 4 5 unfolding eng_def rz_def ra_def by simp
qed

text \<open>
  Claim C1, evaluated where the code departs from it. A critical rule whose predicate rejects
  with \<^verbatim>\<open>new Error('boom')\<close> gets the outcome ERROR from \<^verbatim>\<open>executeRule\<close>; the
  \<^verbatim>\<open>switch\<close> of \<^verbatim>\<open>executeFrameworkRules\<close> has no case for it, so \<open>failed\<close> and
  \<open>failed_rules\<close> stay 0, and since the score counts the weight of FAIL outcomes only, the
  risk score of the framework is 0 (the claim gives failed 1 and weight 4 of 5, 80). When the
  predicate rejects with \<^verbatim>\<open>null\<close>, \<^verbatim>\<open>executeRule\<close> itself throws and the \<^verbatim>\<open>catch\<close> of the
  loop does count the failure: \<open>failed\<close> is 1, the risk score still 0.
\<close>

theorem C1_error_outcome_not_counted:
  "(case snd (executeCompliance boom_engine (Document ()) no_options) of
      Inl error \<Rightarrow> False
    | Inr res \<Rightarrow>
        map status (detailed_results res) = [ERROR, PASS]
        \<and> map message (detailed_results res) = [''Rule evaluation error: boom'', ''compliant'']
        \<and> failed_rules res = 0 \<and> skipped_rules res = 0 \<and> passed_rules res = 1
        \<and> overall_risk_score res = Num 0
        \<and> map (\<lambda>entry. (failed (snd entry), skipped (snd entry), risk_score (snd entry)))
              (framework_results res) = [(0, 0, Num 0)])
   \<and> (case snd (executeCompliance null_engine (Document ()) no_options) of
      Inl error \<Rightarrow> False
    | Inr res \<Rightarrow>
        map status (detailed_results res) = [ERROR, PASS]
        \<and> failed_rules res = 1 \<and> overall_risk_score res = Num 50
        \<and> map (\<lambda>entry. (failed (snd entry), skipped (snd entry), risk_score (snd entry)))
              (framework_results res) = [(1, 0, Num 0)])"
  by code_simp

text \<open>
  Claim C3, evaluated where the code departs from it. For the severity \<open>constructor\<close> the
  lookup \<^verbatim>\<open>weights[severity]\<close> returns the member inherited from \<^verbatim>\<open>Object.prototype\<close>, not
  1; the sums become texts, \<^verbatim>\<open>totalWeight > 0\<close> is false and the score of a framework whose
  only outcome is a FAIL of that severity is 0, where the specification's formula gives 100.
\<close>

theorem C3_inherited_severity_weight:
  "getSeverityWeight (Some ''constructor'') = Inherited_member
   \<and> calculateFrameworkRiskScore (example_result [example_outcome FAIL (Some ''constructor'')]) = Num 0
   \<and> spec_risk_score [example_outcome FAIL (Some ''constructor'')] = Num 100"
  by code_simp


end
